theory Spec2Isabelle
  imports Main "HOL-Library.Word"
begin

section \<open>Python values: bytes, text, exceptions\<close>

text \<open>
  A byte is an 8-bit word and a \<open>bytes\<close> object a list of them. A Python \<open>str\<close> is a
  sequence of Unicode code points, here natural numbers (a \<open>str\<close> holds none above
  \<open>0x10FFFF\<close>). Python integers are unbounded: \<open>int\<close>.
  The exceptions the program can raise are values of \<open>error\<close>; the program defines no
  exception class of its own.
\<close>

type_synonym byte = "8 word"
type_synonym pystr = "nat list"

datatype error = StructError | UnicodeDecodeError | UnicodeEncodeError | KeyError | IndexError
  | TypeError | ValueError

definition bindE :: "error + 'a \<Rightarrow> ('a \<Rightarrow> error + 'b) \<Rightarrow> error + 'b" where
  "bindE r f = (case r of Inl e \<Rightarrow> Inl e | Inr x \<Rightarrow> f x)"

subsection \<open>\<open>struct.pack\<close> and \<open>struct.unpack\<close>, big-endian\<close>

definition be_int :: "byte list \<Rightarrow> int" where
  "be_int bs = foldl (\<lambda>a b. a * 256 + uint b) 0 bs"

definition unpack_I :: "byte list \<Rightarrow> error + int" where
  "unpack_I bs = (if length bs = 4 then Inr (be_int bs) else Inl StructError)"

definition unpack_H :: "byte list \<Rightarrow> error + int" where
  "unpack_H bs = (if length bs = 2 then Inr (be_int bs) else Inl StructError)"

definition unpack_b :: "byte list \<Rightarrow> error + int" where
  "unpack_b bs = (case bs of [b] \<Rightarrow> Inr (sint b) | _ \<Rightarrow> Inl StructError)"

definition unpack_bool :: "byte list \<Rightarrow> error + bool" where
  "unpack_bool bs = (case bs of [b] \<Rightarrow> Inr (b \<noteq> 0) | _ \<Rightarrow> Inl StructError)"

definition be2 :: "int \<Rightarrow> byte list" where
  "be2 v = [word_of_int (v div 2 ^ 8), word_of_int v]"

definition be4 :: "int \<Rightarrow> byte list" where
  "be4 v = [word_of_int (v div 2 ^ 24), word_of_int (v div 2 ^ 16),
            word_of_int (v div 2 ^ 8), word_of_int v]"

definition pack_I :: "int \<Rightarrow> error + byte list" where
  "pack_I v = (if 0 \<le> v \<and> v < 2 ^ 32 then Inr (be4 v) else Inl StructError)"

definition pack_H :: "int \<Rightarrow> error + byte list" where
  "pack_H v = (if 0 \<le> v \<and> v < 2 ^ 16 then Inr (be2 v) else Inl StructError)"

definition pack_b :: "int \<Rightarrow> error + byte list" where
  "pack_b v = (if - 128 \<le> v \<and> v < 128 then Inr [word_of_int v] else Inl StructError)"

definition pack_bool :: "bool \<Rightarrow> error + byte list" where
  "pack_bool v = Inr [if v then 1 else 0]"

subsection \<open>\<open>str.encode("utf-8")\<close> and \<open>bytes.decode("utf-8")\<close>\<close>

definition byte_of :: "nat \<Rightarrow> byte" where
  "byte_of n = of_nat n"

definition cont :: "nat \<Rightarrow> byte" where
  "cont n = byte_of (128 + n mod 64)"

definition surrogate :: "nat \<Rightarrow> bool" where
  "surrogate c = (55296 \<le> c \<and> c < 57344)"

definition utf8_encode_cp :: "nat \<Rightarrow> error + byte list" where
  "utf8_encode_cp c =
    (if c < 128 then Inr [byte_of c]
     else if c < 2048 then Inr [byte_of (192 + c div 64), cont c]
     else if c < 65536 then
       (if surrogate c then Inl UnicodeEncodeError
        else Inr [byte_of (224 + c div 4096), cont (c div 64), cont c])
     else if c < 1114112 then
       Inr [byte_of (240 + c div 262144), cont (c div 4096), cont (c div 64), cont c]
     else Inl UnicodeEncodeError)"

fun utf8_encode :: "pystr \<Rightarrow> error + byte list" where
  "utf8_encode [] = Inr []"
| "utf8_encode (c # cs) =
     bindE (utf8_encode_cp c) (\<lambda>bs. bindE (utf8_encode cs) (\<lambda>r. Inr (bs @ r)))"

definition is_cont :: "byte \<Rightarrow> bool" where
  "is_cont b = (128 \<le> unat b \<and> unat b < 192)"

definition payload :: "byte \<Rightarrow> nat" where
  "payload b = unat b - 128"

fun utf8_decode :: "byte list \<Rightarrow> error + pystr" where
  "utf8_decode [] = Inr []"
| "utf8_decode (b # bs) =
    (if unat b < 128 then bindE (utf8_decode bs) (\<lambda>r. Inr (unat b # r))
     else if 194 \<le> unat b \<and> unat b < 224 then
       (case bs of
          b1 # r \<Rightarrow>
            if is_cont b1
            then bindE (utf8_decode r) (\<lambda>s. Inr (((unat b - 192) * 64 + payload b1) # s))
            else Inl UnicodeDecodeError
        | _ \<Rightarrow> Inl UnicodeDecodeError)
     else if 224 \<le> unat b \<and> unat b < 240 then
       (case bs of
          b1 # b2 # r \<Rightarrow>
            (let c = (unat b - 224) * 4096 + payload b1 * 64 + payload b2
             in if is_cont b1 \<and> is_cont b2 \<and> 2048 \<le> c \<and> \<not> surrogate c
                then bindE (utf8_decode r) (\<lambda>s. Inr (c # s))
                else Inl UnicodeDecodeError)
        | _ \<Rightarrow> Inl UnicodeDecodeError)
     else if 240 \<le> unat b \<and> unat b < 245 then
       (case bs of
          b1 # b2 # b3 # r \<Rightarrow>
            (let c = (unat b - 240) * 262144 + payload b1 * 4096 + payload b2 * 64 + payload b3
             in if is_cont b1 \<and> is_cont b2 \<and> is_cont b3 \<and> 65536 \<le> c \<and> c < 1114112
                then bindE (utf8_decode r) (\<lambda>s. Inr (c # s))
                else Inl UnicodeDecodeError)
        | _ \<Rightarrow> Inl UnicodeDecodeError)
     else Inl UnicodeDecodeError)"

section \<open>The record model\<close>

record TLSTEntry =
  songId :: int
  delay :: int
  volume :: int
  frequency :: int
  switch :: int
  disablePinch :: bool
  disableTlstInclusion :: bool
  title :: pystr
  filename :: pystr

text \<open>\<open>TLSTEntry.__init__\<close>\<close>

definition new_TLSTEntry :: TLSTEntry where
  "new_TLSTEntry = \<lparr>songId = 0, delay = 0, volume = 0, frequency = 0, switch = 0,
     disablePinch = False, disableTlstInclusion = False, title = [], filename = []\<rparr>"

record TLST =
  tracks :: "TLSTEntry list"

definition new_TLST :: TLST where
  "new_TLST = \<lparr>tracks = []\<rparr>"

section \<open>Reading a TLST file\<close>

text \<open>
  The file opened for reading is its content and the current position. \<open>f.read(n)\<close>
  returns the at most \<open>n\<close> bytes from the position on and advances by what it returned;
  a position at or past the end gives \<open>b""\<close>. \<open>f.seek\<close> accepts any position.
\<close>

definition f_read :: "nat \<Rightarrow> byte list \<Rightarrow> nat \<Rightarrow> byte list \<times> nat" where
  "f_read n buf pos = (let c = take n (drop pos buf) in (c, pos + length c))"

definition read_unpack ::
  "(byte list \<Rightarrow> error + 'a) \<Rightarrow> nat \<Rightarrow> byte list \<Rightarrow> nat \<Rightarrow> error + ('a \<times> nat)" where
  "read_unpack unpack n buf pos =
     (case f_read n buf pos of (c, pos') \<Rightarrow> bindE (unpack c) (\<lambda>v. Inr (v, pos')))"

text \<open>
  \<open>readNTString\<close>: the loop ends only on reading the single byte 0. At the end of the
  file \<open>f.read(1)\<close> is \<open>b""\<close>, which is not \<open>b"\x00"\<close>, and the loop goes on with the
  position and the data unchanged: not returning is the value \<open>None\<close>.
\<close>

partial_function (option) readNTString_loop ::
  "byte list \<Rightarrow> nat \<Rightarrow> byte list \<Rightarrow> (byte list \<times> nat) option" where
  "readNTString_loop buf pos data =
     (case f_read 1 buf pos of
        (c, pos') \<Rightarrow> if c \<noteq> [0] then readNTString_loop buf pos' (data @ c) else Some (data, pos'))"

declare readNTString_loop.simps [code]

definition readNTString :: "byte list \<Rightarrow> nat \<Rightarrow> ((error + pystr) \<times> nat) option" where
  "readNTString buf pos =
     (case readNTString_loop buf pos [] of
        None \<Rightarrow> None
      | Some (data, pos') \<Rightarrow> Some (utf8_decode data, pos'))"

text \<open>The sixteen bytes of one record, read field by field from position \<open>p\<close>.\<close>

definition read_record ::
  "byte list \<Rightarrow> nat \<Rightarrow> error + (TLSTEntry \<times> int \<times> int \<times> nat)" where
  "read_record buf p =
     bindE (read_unpack unpack_I 4 buf p) (\<lambda>(v_songId, p).
     bindE (read_unpack unpack_H 2 buf p) (\<lambda>(v_delay, p).
     bindE (read_unpack unpack_b 1 buf p) (\<lambda>(v_volume, p).
     bindE (read_unpack unpack_b 1 buf p) (\<lambda>(v_frequency, p).
     bindE (read_unpack unpack_H 2 buf p) (\<lambda>(filenameOffset, p).
     bindE (read_unpack unpack_H 2 buf p) (\<lambda>(titleOffset, p).
     bindE (read_unpack unpack_H 2 buf p) (\<lambda>(v_switch, p).
     bindE (read_unpack unpack_bool 1 buf p) (\<lambda>(v_disablePinch, p).
     bindE (read_unpack unpack_bool 1 buf p) (\<lambda>(v_disableTlstInclusion, p).
       Inr (new_TLSTEntry\<lparr>songId := v_songId, delay := v_delay, volume := v_volume,
              frequency := v_frequency, switch := v_switch, disablePinch := v_disablePinch,
              disableTlstInclusion := v_disableTlstInclusion\<rparr>,
            filenameOffset, titleOffset, p))))))))))"

text \<open>
  One iteration of the loop of \<open>fromTlst\<close> up to \<open>entries.append(entry)\<close>: the entry and
  the position the file is left at. The title is read before the filename.
\<close>

definition read_title ::
  "byte list \<Rightarrow> int \<Rightarrow> int \<Rightarrow> TLSTEntry \<Rightarrow> nat \<Rightarrow> (error + (TLSTEntry \<times> nat)) option" where
  "read_title buf stringsOffset titleOffset entry p =
     (if titleOffset \<noteq> 65535 then
        (case readNTString buf (nat (titleOffset + stringsOffset)) of
           None \<Rightarrow> None
         | Some (Inl e, p') \<Rightarrow> Some (Inl e)
         | Some (Inr s, p') \<Rightarrow> Some (Inr (entry\<lparr>title := s\<rparr>, p')))
      else Some (Inr (entry, p)))"

definition read_filename ::
  "byte list \<Rightarrow> int \<Rightarrow> int \<Rightarrow> TLSTEntry \<Rightarrow> nat \<Rightarrow> (error + (TLSTEntry \<times> nat)) option" where
  "read_filename buf stringsOffset filenameOffset entry p =
     (if filenameOffset \<noteq> 65535 then
        (case readNTString buf (nat (filenameOffset + stringsOffset)) of
           None \<Rightarrow> None
         | Some (Inl e, p') \<Rightarrow> Some (Inl e)
         | Some (Inr s, p') \<Rightarrow> Some (Inr (entry\<lparr>filename := s\<rparr>, p')))
      else Some (Inr (entry, p)))"

definition read_entry ::
  "byte list \<Rightarrow> int \<Rightarrow> nat \<Rightarrow> (error + (TLSTEntry \<times> nat)) option" where
  "read_entry buf stringsOffset x =
     (case read_record buf (x * 16 + 12) of
        Inl e \<Rightarrow> Some (Inl e)
      | Inr (entry, filenameOffset, titleOffset, p) \<Rightarrow>
          (case read_title buf stringsOffset titleOffset entry p of
             None \<Rightarrow> None
           | Some (Inl e) \<Rightarrow> Some (Inl e)
           | Some (Inr (entry', p')) \<Rightarrow> read_filename buf stringsOffset filenameOffset entry' p'))"

text \<open>
  \<open>for x in range(numEntries)\<close>, with \<open>k\<close> the iterations still to run; the \<open>break\<close>
  is taken when \<open>f.tell()\<close> is the size of the file.
\<close>

fun entries_loop ::
  "byte list \<Rightarrow> int \<Rightarrow> nat \<Rightarrow> nat \<Rightarrow> TLSTEntry list \<Rightarrow> (error + TLSTEntry list) option" where
  "entries_loop buf stringsOffset 0 x entries = Some (Inr entries)"
| "entries_loop buf stringsOffset (Suc k) x entries =
     (case read_entry buf stringsOffset x of
        None \<Rightarrow> None
      | Some (Inl e) \<Rightarrow> Some (Inl e)
      | Some (Inr (entry, p)) \<Rightarrow>
          if p = length buf then Some (Inr (entries @ [entry]))
          else entries_loop buf stringsOffset k (Suc x) (entries @ [entry]))"

definition fromTlst :: "byte list \<Rightarrow> (error + TLST) option" where
  "fromTlst buf =
     (case read_unpack unpack_I 4 buf 4 of
        Inl e \<Rightarrow> Some (Inl e)
      | Inr (numEntries, p) \<Rightarrow>
          (case read_unpack unpack_H 2 buf (p + 2) of
             Inl e \<Rightarrow> Some (Inl e)
           | Inr (stringsOffset, p') \<Rightarrow>
               (case entries_loop buf stringsOffset (nat numEntries) 0 [] of
                  None \<Rightarrow> None
                | Some (Inl e) \<Rightarrow> Some (Inl e)
                | Some (Inr entries) \<Rightarrow> Some (Inr (new_TLST\<lparr>tracks := entries\<rparr>)))))"

section \<open>Writing a TLST file\<close>

text \<open>
  The state \<open>toTlst\<close> runs in: the object \<open>self\<close> and the file \<open>f\<close> opened for
  writing (its content and the current position). Every statement is a function from the
  state to a result, a value or the exception raised, and the state after it.
\<close>

record wfile =
  content :: "byte list"
  wpos :: nat

record enc_state =
  st_self :: TLST
  st_file :: wfile

type_synonym 'a prog = "enc_state \<Rightarrow> (error + 'a) \<times> enc_state"

definition ret :: "'a \<Rightarrow> 'a prog" where
  "ret v = (\<lambda>s. (Inr v, s))"

definition liftE :: "error + 'a \<Rightarrow> 'a prog" where
  "liftE r = (\<lambda>s. (r, s))"

definition bindS :: "'a prog \<Rightarrow> ('a \<Rightarrow> 'b prog) \<Rightarrow> 'b prog" where
  "bindS m g = (\<lambda>s. case m s of (Inl e, s') \<Rightarrow> (Inl e, s') | (Inr v, s') \<Rightarrow> g v s')"

definition thenS :: "unit prog \<Rightarrow> 'b prog \<Rightarrow> 'b prog" where
  "thenS m n = bindS m (\<lambda>_. n)"

fun forS :: "'a list \<Rightarrow> ('a \<Rightarrow> unit prog) \<Rightarrow> unit prog" where
  "forS [] body = ret ()"
| "forS (x # xs) body = thenS (body x) (forS xs body)"

text \<open>
  \<open>f.write(bs)\<close> puts \<open>bs\<close> at the position, over what is there and past the end; a
  position beyond the end leaves a gap of zero bytes.
\<close>

definition write_at :: "byte list \<Rightarrow> nat \<Rightarrow> byte list \<Rightarrow> byte list" where
  "write_at buf pos bs =
     take pos buf @ replicate (pos - length buf) 0 @ bs @ drop (pos + length bs) buf"

definition f_write :: "byte list \<Rightarrow> unit prog" where
  "f_write bs = (\<lambda>s. (Inr (),
     s\<lparr>st_file := \<lparr>content = write_at (content (st_file s)) (wpos (st_file s)) bs,
                     wpos = wpos (st_file s) + length bs\<rparr>\<rparr>))"

definition f_seek :: "nat \<Rightarrow> unit prog" where
  "f_seek p = (\<lambda>s. (Inr (), s\<lparr>st_file := (st_file s)\<lparr>wpos := p\<rparr>\<rparr>))"

definition f_tell :: "nat prog" where
  "f_tell = (\<lambda>s. (Inr (wpos (st_file s)), s))"

definition self_tracks :: "TLSTEntry list prog" where
  "self_tracks = (\<lambda>s. (Inr (tracks (st_self s)), s))"

definition self_tracks_at :: "nat \<Rightarrow> TLSTEntry prog" where
  "self_tracks_at x = (\<lambda>s.
     (if x < length (tracks (st_self s)) then Inr (tracks (st_self s) ! x) else Inl IndexError, s))"

text \<open>\<open>f.write(struct.pack(...))\<close>: the argument is computed, and may raise, before the write.\<close>

definition write_packed :: "error + byte list \<Rightarrow> unit prog" where
  "write_packed r = bindS (liftE r) f_write"

definition magic :: "byte list" where
  "magic = [84, 76, 83, 84]"

text \<open>The body of the first loop: one record, with both offsets 0xFFFF.\<close>

definition write_entry :: "TLSTEntry \<Rightarrow> unit prog" where
  "write_entry entry =
     thenS (write_packed (pack_I (songId entry)))
    (thenS (write_packed (pack_H (delay entry)))
    (thenS (write_packed (pack_b (volume entry)))
    (thenS (write_packed (pack_b (frequency entry)))
    (thenS (write_packed (pack_H 65535))
    (thenS (write_packed (pack_H 65535))
    (thenS (write_packed (pack_H (switch entry)))
    (thenS (write_packed (pack_bool (disablePinch entry)))
           (write_packed (pack_bool (disableTlstInclusion entry))))))))))"

text \<open>
  The second loop treats the filename and then the title in the same way, at the slots
  \<open>x * 0x10 + 0xC + 0x8\<close> and \<open>x * 0x10 + 0xC + 0xA\<close>: an empty string writes nothing.
\<close>

definition write_string :: "pystr \<Rightarrow> nat \<Rightarrow> nat \<Rightarrow> unit prog" where
  "write_string str slot stringsOffset =
     bindS f_tell (\<lambda>off.
       if str \<noteq> [] then
         thenS (write_packed (utf8_encode str))
        (thenS (f_write [0])
        (bindS f_tell (\<lambda>prevOff.
         thenS (f_seek slot)
        (thenS (write_packed (pack_H (int off - int stringsOffset)))
               (f_seek prevOff)))))
       else ret ())"

definition write_strings :: "nat \<Rightarrow> nat \<Rightarrow> unit prog" where
  "write_strings stringsOffset x =
     bindS (self_tracks_at x) (\<lambda>entry.
       thenS (write_string (filename entry) (x * 16 + 12 + 8) stringsOffset)
             (write_string (title entry) (x * 16 + 12 + 10) stringsOffset))"

definition toTlst_prog :: "unit prog" where
  "toTlst_prog =
     thenS (f_write magic)
    (bindS self_tracks (\<lambda>ts.
     thenS (write_packed (pack_I (int (length ts))))
    (thenS (f_seek 12)
    (bindS self_tracks (\<lambda>ts.
     thenS (forS ts write_entry)
    (bindS f_tell (\<lambda>stringsOffset.
     bindS self_tracks (\<lambda>ts.
     thenS (forS [0..<length ts] (write_strings stringsOffset))
    (bindS f_tell (\<lambda>totalSize.
     thenS (f_seek 8)
    (thenS (write_packed (pack_H (int totalSize)))
           (write_packed (pack_H (int stringsOffset))))))))))))))"

text \<open>The file \<open>toTlst\<close> leaves behind when it returns, or the exception it raises.\<close>

definition toTlst :: "TLST \<Rightarrow> error + byte list" where
  "toTlst self =
     (case toTlst_prog \<lparr>st_self = self, st_file = \<lparr>content = [], wpos = 0\<rparr>\<rparr> of
        (Inl e, s) \<Rightarrow> Inl e
      | (Inr u, s) \<Rightarrow> Inr (content (st_file s)))"

section \<open>Predicates and example values used in the statements\<close>

text \<open>
  A code point that \<open>str.encode("utf-8")\<close> accepts: a Unicode scalar value.
\<close>

definition valid_cp :: "nat \<Rightarrow> bool" where
  "valid_cp c = (c < 1114112 \<and> \<not> surrogate c)"

text \<open>The entry of the scenario: title "Song A", filename "song_a.brstm".\<close>

definition song_a :: TLSTEntry where
  "song_a = \<lparr>songId = 1, delay = 0, volume = 0, frequency = 0, switch = 0,
     disablePinch = False, disableTlstInclusion = False,
     title = [83, 111, 110, 103, 32, 65],
     filename = [115, 111, 110, 103, 95, 97, 46, 98, 114, 115, 116, 109]\<rparr>"

definition song_a_bytes :: "byte list" where
  "song_a_bytes =
     [84, 76, 83, 84, 0, 0, 0, 1, 0, 48, 0, 28,
      0, 0, 0, 1, 0, 0, 0, 0, 0, 0, 0, 13, 0, 0, 0, 0,
      115, 111, 110, 103, 95, 97, 46, 98, 114, 115, 116, 109, 0,
      83, 111, 110, 103, 32, 65, 0]"

text \<open>
  Every string offset that the first \<open>numEntries\<close> records of a file declare, other
  than 0xFFFF, has a zero byte at or after the position it points to.
\<close>

definition offset_terminated :: "byte list \<Rightarrow> int \<Rightarrow> int \<Rightarrow> bool" where
  "offset_terminated buf stringsOffset off =
     (off = 65535 \<or> 0 \<in> set (drop (nat (off + stringsOffset)) buf))"

definition record_terminated :: "byte list \<Rightarrow> int \<Rightarrow> nat \<Rightarrow> bool" where
  "record_terminated buf stringsOffset x =
     (case read_record buf (x * 16 + 12) of
        Inl e \<Rightarrow> True
      | Inr (entry, filenameOffset, titleOffset, p) \<Rightarrow>
          offset_terminated buf stringsOffset titleOffset \<and>
          offset_terminated buf stringsOffset filenameOffset)"

definition strings_terminated :: "byte list \<Rightarrow> bool" where
  "strings_terminated buf =
     (case read_unpack unpack_I 4 buf 4 of
        Inl e \<Rightarrow> True
      | Inr (numEntries, p) \<Rightarrow>
          (case read_unpack unpack_H 2 buf (p + 2) of
             Inl e \<Rightarrow> True
           | Inr (stringsOffset, p') \<Rightarrow>
               list_all (record_terminated buf stringsOffset) [0..<nat numEntries]))"

text \<open>
  Two files whose header declares more entries than they hold. \<open>stop_bytes\<close> declares 3
  and holds two records, the second with the filename "A", the last string of the file.
  \<open>fail_bytes\<close> declares 2 and holds one record with the filename "A" and the title "B".
\<close>

definition stop_bytes :: "byte list" where
  "stop_bytes = [84, 76, 83, 84, 0, 0, 0, 3, 0, 46, 0, 44,
      0, 0, 0, 1, 0, 0, 0, 0, 255, 255, 255, 255, 0, 0, 0, 0,
      0, 0, 0, 2, 0, 0, 0, 0, 0, 0, 255, 255, 0, 0, 0, 0,
      65, 0]"

definition fail_bytes :: "byte list" where
  "fail_bytes = [84, 76, 83, 84, 0, 0, 0, 2, 0, 32, 0, 28,
      0, 0, 0, 1, 0, 0, 0, 0, 0, 0, 0, 2, 0, 0, 0, 0,
      65, 0, 66, 0]"

section \<open>The JSON mapping\<close>

text \<open>
  A JSON document, as \<open>json.load\<close> reads it and \<open>json.dump\<close> writes it, is held as the
  syntax tree of its text. An object keeps its members in the order of the text. A string
  token is the list of its characters with every escape \<open>\uXXXX\<close> standing as the 16-bit
  value it names (a text read from a file holds no surrogate as a raw character). Numbers
  with a fraction or an exponent (Python floats) are left out of the model.
\<close>

datatype json = JNull | JBool bool | JInt int | JStr "nat list" | JArr "json list"
  | JObj "(nat list \<times> json) list"

text \<open>
  Python objects as the two hooks see them. The attributes of a \<open>TLSTEntry\<close> and of a
  \<open>TLST\<close> hold whatever was assigned to them; a \<open>dict\<close> is the list of its items in
  insertion order, with distinct keys.
\<close>

datatype pyobj = PNone | PBool bool | PInt int | PStr pystr | PList "pyobj list"
  | PDict "(pystr \<times> pyobj) list"
  | PEntry pyobj pyobj pyobj pyobj pyobj pyobj pyobj pyobj pyobj
  | PTLST pyobj

definition str :: "string \<Rightarrow> pystr" where
  "str s = map of_char s"

subsection \<open>The library: the text of integers and of strings\<close>

text \<open>
  An \<open>int\<close> is written by \<open>int.__repr__\<close> and read by \<open>int(...)\<close>; both raise \<open>ValueError\<close>
  for more than \<open>sys.int_info.default_max_str_digits\<close> = 4300 decimal digits.
\<close>

definition int_max_str_digits :: nat where
  "int_max_str_digits = 4300"

definition int_str_ok :: "int \<Rightarrow> bool" where
  "int_str_ok i = (\<bar>i\<bar> < 10 ^ int_max_str_digits)"

definition high_surrogate :: "nat \<Rightarrow> bool" where
  "high_surrogate c = (55296 \<le> c \<and> c \<le> 56319)"

definition low_surrogate :: "nat \<Rightarrow> bool" where
  "low_surrogate c = (56320 \<le> c \<and> c \<le> 57343)"

text \<open>
  \<open>json.encoder.encode_basestring_ascii\<close> (\<open>ensure_ascii\<close> is left at its default): a
  character above U+FFFF is written as the two escapes of its surrogate pair, any other
  character as itself or as one escape.
\<close>

fun encode_basestring_ascii :: "pystr \<Rightarrow> nat list" where
  "encode_basestring_ascii [] = []"
| "encode_basestring_ascii (c # cs) =
     (if c < 65536 then [c]
      else [55296 + (c - 65536) div 1024, 56320 + (c - 65536) mod 1024])
     @ encode_basestring_ascii cs"

text \<open>
  \<open>json.decoder.scanstring\<close>: an escape in the high-surrogate range that is followed by
  an escape in the low-surrogate range is read with it as one character.
\<close>

fun scanstring :: "nat list \<Rightarrow> pystr" where
  "scanstring (uni # uni2 # s) =
     (if high_surrogate uni \<and> low_surrogate uni2
      then (65536 + (uni - 55296) * 1024 + (uni2 - 56320)) # scanstring s
      else uni # scanstring (uni2 # s))"
| "scanstring s = s"

subsection \<open>Dictionaries\<close>

text \<open>\<open>k in d\<close>, \<open>d[k]\<close> and \<open>d[k] = v\<close>.\<close>

definition dict_has :: "(pystr \<times> 'v) list \<Rightarrow> pystr \<Rightarrow> bool" where
  "dict_has d k = (map_of d k \<noteq> None)"

definition dict_get :: "(pystr \<times> 'v) list \<Rightarrow> pystr \<Rightarrow> error + 'v" where
  "dict_get d k = (case map_of d k of None \<Rightarrow> Inl KeyError | Some v \<Rightarrow> Inr v)"

fun dict_set :: "(pystr \<times> 'v) list \<Rightarrow> pystr \<Rightarrow> 'v \<Rightarrow> (pystr \<times> 'v) list" where
  "dict_set [] k v = [(k, v)]"
| "dict_set ((k', v') # d) k v = (if k' = k then (k, v) # d else (k', v') # dict_set d k v)"

text \<open>The \<open>dict\<close> that the parser builds from the members of an object: a repeated key keeps its last value.\<close>

definition dict_of_pairs :: "(pystr \<times> 'v) list \<Rightarrow> (pystr \<times> 'v) list" where
  "dict_of_pairs kvs = foldl (\<lambda>d (k, v). dict_set d k v) [] kvs"

subsection \<open>Reading a document\<close>

text \<open>\<open>TLSTJsonDecoder.dict_to_object\<close>\<close>

definition dict_to_object :: "(pystr \<times> pyobj) list \<Rightarrow> error + pyobj" where
  "dict_to_object d =
     (if dict_has d (str ''songId'') then
        bindE (dict_get d (str ''songId'')) (\<lambda>v_songId.
        bindE (dict_get d (str ''delay'')) (\<lambda>v_delay.
        bindE (dict_get d (str ''volume'')) (\<lambda>v_volume.
        bindE (dict_get d (str ''frequency'')) (\<lambda>v_frequency.
        bindE (dict_get d (str ''switch'')) (\<lambda>v_switch.
        bindE (dict_get d (str ''disablePinch'')) (\<lambda>v_disablePinch.
        bindE (dict_get d (str ''disableTlstInclusion'')) (\<lambda>v_disableTlstInclusion.
        bindE (dict_get d (str ''title'')) (\<lambda>v_title.
        bindE (dict_get d (str ''filename'')) (\<lambda>v_filename.
          Inr (PEntry v_songId v_delay v_volume v_frequency v_switch v_disablePinch
                 v_disableTlstInclusion v_title v_filename))))))))))
      else if dict_has d (str ''tracks'') then
        bindE (dict_get d (str ''tracks'')) (\<lambda>v_tracks. Inr (PTLST v_tracks))
      else Inr (PDict d))"

text \<open>
  \<open>json.load(f, cls=TLSTJsonDecoder)\<close>: the values of an object are decoded first, in
  the order of the text, then the hook is applied to the \<open>dict\<close> of the object.
\<close>

fun from_json :: "json \<Rightarrow> error + pyobj"
  and from_json_list :: "json list \<Rightarrow> error + pyobj list"
  and from_json_members :: "(nat list \<times> json) list \<Rightarrow> error + (pystr \<times> pyobj) list" where
  "from_json JNull = Inr PNone"
| "from_json (JBool b) = Inr (PBool b)"
| "from_json (JInt i) = (if int_str_ok i then Inr (PInt i) else Inl ValueError)"
| "from_json (JStr s) = Inr (PStr (scanstring s))"
| "from_json (JArr xs) = bindE (from_json_list xs) (\<lambda>vs. Inr (PList vs))"
| "from_json (JObj kvs) =
     bindE (from_json_members kvs) (\<lambda>ps. dict_to_object (dict_of_pairs ps))"
| "from_json_list [] = Inr []"
| "from_json_list (x # xs) =
     bindE (from_json x) (\<lambda>v. bindE (from_json_list xs) (\<lambda>vs. Inr (v # vs)))"
| "from_json_members [] = Inr []"
| "from_json_members (kv # kvs) =
     bindE (from_json (snd kv)) (\<lambda>v.
     bindE (from_json_members kvs) (\<lambda>ps. Inr ((scanstring (fst kv), v) # ps)))"

subsection \<open>Writing a document\<close>

text \<open>
  \<open>TLSTJsonEncoder.default\<close>, called by the encoder for an object that is not of a JSON
  type; for any other object \<open>super().default\<close> raises \<open>TypeError\<close>.
\<close>

definition default_enc :: "pyobj \<Rightarrow> error + pyobj" where
  "default_enc ob =
     (case ob of
        PEntry v_songId v_delay v_volume v_frequency v_switch v_disablePinch
            v_disableTlstInclusion v_title v_filename \<Rightarrow>
          Inr (PDict [(str ''songId'', v_songId), (str ''delay'', v_delay),
                      (str ''volume'', v_volume), (str ''frequency'', v_frequency),
                      (str ''switch'', v_switch), (str ''disablePinch'', v_disablePinch),
                      (str ''disableTlstInclusion'', v_disableTlstInclusion),
                      (str ''title'', v_title), (str ''filename'', v_filename)])
      | PTLST v_tracks \<Rightarrow> Inr (PDict [(str ''tracks'', v_tracks)])
      | _ \<Rightarrow> Inl TypeError)"

text \<open>
  The encoder calls itself on what \<open>default\<close> returns. This count, which goes down at
  every call, shows that it returns: a \<open>dict\<close> of nine attributes counts less than the
  entry that has them.
\<close>

fun enc_size :: "pyobj \<Rightarrow> nat"
  and enc_size_list :: "pyobj list \<Rightarrow> nat"
  and enc_size_items :: "(pystr \<times> pyobj) list \<Rightarrow> nat" where
  "enc_size PNone = 0"
| "enc_size (PBool b) = 0"
| "enc_size (PInt i) = 0"
| "enc_size (PStr s) = 0"
| "enc_size (PList xs) = Suc (enc_size_list xs)"
| "enc_size (PDict kvs) = Suc (enc_size_items kvs)"
| "enc_size (PEntry a b c d e f g h i) =
     11 + (enc_size a + enc_size b + enc_size c + enc_size d + enc_size e + enc_size f
           + enc_size g + enc_size h + enc_size i)"
| "enc_size (PTLST t) = 3 + enc_size t"
| "enc_size_list [] = 0"
| "enc_size_list (x # xs) = Suc (enc_size x + enc_size_list xs)"
| "enc_size_items [] = 0"
| "enc_size_items (kv # kvs) = Suc (enc_size (snd kv) + enc_size_items kvs)"

text \<open>
  \<open>json.dumps(self, cls=TLSTJsonEncoder)\<close>: an object of a JSON type is written as it is,
  its parts in turn; for a \<open>TLSTEntry\<close> or a \<open>TLST\<close> the encoder calls \<open>default\<close> and
  writes the object it returns.
\<close>

function to_json :: "pyobj \<Rightarrow> error + json"
  and to_json_list :: "pyobj list \<Rightarrow> error + json list"
  and to_json_items :: "(pystr \<times> pyobj) list \<Rightarrow> error + (nat list \<times> json) list" where
  "to_json PNone = Inr JNull"
| "to_json (PBool b) = Inr (JBool b)"
| "to_json (PInt i) = (if int_str_ok i then Inr (JInt i) else Inl ValueError)"
| "to_json (PStr s) = Inr (JStr (encode_basestring_ascii s))"
| "to_json (PList xs) =
     (case to_json_list xs of Inl err \<Rightarrow> Inl err | Inr js \<Rightarrow> Inr (JArr js))"
| "to_json (PDict kvs) =
     (case to_json_items kvs of Inl err \<Rightarrow> Inl err | Inr ms \<Rightarrow> Inr (JObj ms))"
| "to_json (PEntry a b c d e f g h i) =
     (case default_enc (PEntry a b c d e f g h i) of
        Inl err \<Rightarrow> Inl err | Inr ob \<Rightarrow> to_json ob)"
| "to_json (PTLST t) =
     (case default_enc (PTLST t) of Inl err \<Rightarrow> Inl err | Inr ob \<Rightarrow> to_json ob)"
| "to_json_list [] = Inr []"
| "to_json_list (x # xs) =
     (case to_json x of
        Inl err \<Rightarrow> Inl err
      | Inr j \<Rightarrow> (case to_json_list xs of Inl err \<Rightarrow> Inl err | Inr js \<Rightarrow> Inr (j # js)))"
| "to_json_items [] = Inr []"
| "to_json_items (kv # kvs) =
     (case to_json (snd kv) of
        Inl err \<Rightarrow> Inl err
      | Inr j \<Rightarrow>
          (case to_json_items kvs of
             Inl err \<Rightarrow> Inl err
           | Inr ms \<Rightarrow> Inr ((encode_basestring_ascii (fst kv), j) # ms)))"
  by pat_completeness auto

termination
  by (relation "measure (\<lambda>x. case x of Inl ob \<Rightarrow> enc_size ob
                             | Inr (Inl xs) \<Rightarrow> enc_size_list xs
                             | Inr (Inr kvs) \<Rightarrow> enc_size_items kvs)")
     (auto simp: default_enc_def)

text \<open>The typed records of the record model as Python objects; \<open>toJson\<close> and \<open>fromJson\<close>.\<close>

definition obj_of_entry :: "TLSTEntry \<Rightarrow> pyobj" where
  "obj_of_entry e = PEntry (PInt (songId e)) (PInt (delay e)) (PInt (volume e))
     (PInt (frequency e)) (PInt (switch e)) (PBool (disablePinch e))
     (PBool (disableTlstInclusion e)) (PStr (title e)) (PStr (filename e))"

definition obj_of_TLST :: "TLST \<Rightarrow> pyobj" where
  "obj_of_TLST t = PTLST (PList (map obj_of_entry (tracks t)))"

text \<open>\<open>TLST.toJson\<close>: the document written to the file, or the exception raised.\<close>

definition toJson :: "TLST \<Rightarrow> error + json" where
  "toJson self = to_json (obj_of_TLST self)"

text \<open>\<open>TLST.fromJson\<close>, on the document of the file.\<close>

definition fromJson :: "json \<Rightarrow> error + pyobj" where
  "fromJson doc = from_json doc"

subsection \<open>The documents of the statements\<close>

text \<open>
  The document of section 6 of the specification for a track list: the object with the
  one member \<open>tracks\<close>, an array of one object per entry, in order, with the nine fields.
\<close>

definition entry_json :: "TLSTEntry \<Rightarrow> json" where
  "entry_json e =
     JObj [(str ''songId'', JInt (songId e)), (str ''delay'', JInt (delay e)),
           (str ''volume'', JInt (volume e)), (str ''frequency'', JInt (frequency e)),
           (str ''switch'', JInt (switch e)), (str ''disablePinch'', JBool (disablePinch e)),
           (str ''disableTlstInclusion'', JBool (disableTlstInclusion e)),
           (str ''title'', JStr (encode_basestring_ascii (title e))),
           (str ''filename'', JStr (encode_basestring_ascii (filename e)))]"

definition tracks_json :: "TLST \<Rightarrow> json" where
  "tracks_json t = JObj [(str ''tracks'', JArr (map entry_json (tracks t)))]"

text \<open>
  The track lists of the record model that have a JSON text: the integers can be printed
  and the strings are Unicode text, that is, hold no surrogate code point.
\<close>

definition json_entry_ok :: "TLSTEntry \<Rightarrow> bool" where
  "json_entry_ok e =
     (int_str_ok (songId e) \<and> int_str_ok (delay e) \<and> int_str_ok (volume e)
      \<and> int_str_ok (frequency e) \<and> int_str_ok (switch e)
      \<and> list_all valid_cp (title e) \<and> list_all valid_cp (filename e))"

text \<open>An entry object from which \<open>disablePinch\<close> is missing.\<close>

definition no_pinch_doc :: json where
  "no_pinch_doc =
     JObj [(str ''songId'', JInt 1), (str ''delay'', JInt 0), (str ''volume'', JInt 0),
           (str ''frequency'', JInt 0), (str ''switch'', JInt 0),
           (str ''disableTlstInclusion'', JBool False),
           (str ''title'', JStr (str ''Song A'')), (str ''filename'', JStr (str ''song_a.brstm''))]"

section \<open>The file that \<open>toTlst\<close> writes\<close>

text \<open>
  A state of the encoder, and the outcome of a statement that returned: its value and the
  state after it, \<open>None\<close> if it raised.
\<close>

abbreviation state_of :: "TLST \<Rightarrow> byte list \<Rightarrow> nat \<Rightarrow> enc_state" where
  "state_of t c p \<equiv> \<lparr>st_self = t, st_file = \<lparr>content = c, wpos = p\<rparr>\<rparr>"

definition returns :: "'a prog \<Rightarrow> enc_state \<Rightarrow> ('a \<times> enc_state) option" where
  "returns m s = (case m s of (Inl e, s') \<Rightarrow> None | (Inr v, s') \<Rightarrow> Some (v, s'))"

text \<open>
  The bytes a string takes in the string table: none if it is empty, else its UTF-8
  bytes and a NUL. The table holds, entry by entry, the filename and then the title.
\<close>

definition utf8 :: "pystr \<Rightarrow> byte list" where
  "utf8 s = (case utf8_encode s of Inl e \<Rightarrow> [] | Inr bs \<Rightarrow> bs)"

definition cstring :: "pystr \<Rightarrow> byte list" where
  "cstring s = (if s = [] then [] else utf8 s @ [0])"

definition entry_strings :: "TLSTEntry \<Rightarrow> byte list" where
  "entry_strings e = cstring (filename e) @ cstring (title e)"

definition string_table :: "TLSTEntry list \<Rightarrow> byte list" where
  "string_table es = concat (map entry_strings es)"

text \<open>The offsets stored in the record of entry \<open>x\<close>, relative to the start of the table.\<close>

definition filename_offset :: "TLSTEntry list \<Rightarrow> nat \<Rightarrow> int" where
  "filename_offset es x =
     (if filename (es ! x) = [] then 65535 else int (length (string_table (take x es))))"

definition title_offset :: "TLSTEntry list \<Rightarrow> nat \<Rightarrow> int" where
  "title_offset es x =
     (if title (es ! x) = [] then 65535
      else int (length (string_table (take x es)) + length (cstring (filename (es ! x)))))"

text \<open>The sixteen bytes of a record with the offsets \<open>fo\<close> and \<open>to\<close>, and the whole file.\<close>

definition record_bytes :: "TLSTEntry \<Rightarrow> int \<Rightarrow> int \<Rightarrow> byte list" where
  "record_bytes e fo to =
     be4 (songId e) @ be2 (delay e) @ [word_of_int (volume e), word_of_int (frequency e)]
     @ be2 fo @ be2 to
     @ be2 (switch e) @ [if disablePinch e then 1 else 0, if disableTlstInclusion e then 1 else 0]"

text \<open>The records while the second loop runs: the offsets of the first \<open>x\<close> are set.\<close>

definition patched_records :: "TLSTEntry list \<Rightarrow> nat \<Rightarrow> byte list list" where
  "patched_records es x =
     map (\<lambda>y. record_bytes (es ! y) (if y < x then filename_offset es y else 65535)
                                   (if y < x then title_offset es y else 65535))
       [0..<length es]"

text \<open>
  The content of the file when the second loop is at index \<open>x\<close>, after a header \<open>hdr\<close>,
  and what that step of the loop needs in order to return.
\<close>

definition loop_content :: "byte list \<Rightarrow> TLSTEntry list \<Rightarrow> nat \<Rightarrow> byte list" where
  "loop_content hdr es x = hdr @ concat (patched_records es x) @ string_table (take x es)"

definition entry_fits :: "TLSTEntry list \<Rightarrow> nat \<Rightarrow> bool" where
  "entry_fits es x =
     ((filename (es ! x) = [] \<or> (list_all valid_cp (filename (es ! x))
          \<and> length (string_table (take x es)) < 65536))
      \<and> (title (es ! x) = [] \<or> (list_all valid_cp (title (es ! x))
          \<and> length (string_table (take x es) @ cstring (filename (es ! x))) < 65536)))"

definition file_size :: "TLSTEntry list \<Rightarrow> nat" where
  "file_size es = 12 + 16 * length es + length (string_table es)"

definition layout :: "TLSTEntry list \<Rightarrow> byte list" where
  "layout es =
     magic @ be4 (int (length es)) @ be2 (int (file_size es)) @ be2 (int (12 + 16 * length es))
     @ concat (map (\<lambda>x. record_bytes (es ! x) (filename_offset es x) (title_offset es x))
                 [0..<length es])
     @ string_table es"

text \<open>
  The entries and track lists that \<open>toTlst\<close> accepts: every number fits its field, the
  strings can be encoded, and the size of the file fits the 16 bits of its header field.
\<close>

definition fields_ok :: "TLSTEntry \<Rightarrow> bool" where
  "fields_ok e =
     (0 \<le> songId e \<and> songId e < 2 ^ 32 \<and> 0 \<le> delay e \<and> delay e < 2 ^ 16
      \<and> - 128 \<le> volume e \<and> volume e < 128 \<and> - 128 \<le> frequency e \<and> frequency e < 128
      \<and> 0 \<le> switch e \<and> switch e < 2 ^ 16)"

definition strings_ok :: "TLSTEntry \<Rightarrow> bool" where
  "strings_ok e = (list_all valid_cp (filename e) \<and> list_all valid_cp (title e))"

definition enc_ok :: "TLSTEntry list \<Rightarrow> bool" where
  "enc_ok es = (list_all fields_ok es \<and> list_all strings_ok es \<and> file_size es < 2 ^ 16)"

text \<open>
  The 16-bit numbers in the filename and title slots of record \<open>x\<close> of a file, and the
  statements that keep \<open>self\<close> and raise nothing but \<open>struct.error\<close> and
  \<open>UnicodeEncodeError\<close>.
\<close>

definition filename_slot :: "byte list \<Rightarrow> nat \<Rightarrow> int" where
  "filename_slot buf x = be_int (take 2 (drop (x * 16 + 12 + 8) buf))"

definition title_slot :: "byte list \<Rightarrow> nat \<Rightarrow> int" where
  "title_slot buf x = be_int (take 2 (drop (x * 16 + 12 + 10) buf))"

definition raises_only :: "TLST \<Rightarrow> 'a prog \<Rightarrow> bool" where
  "raises_only t m =
     (\<forall>s. st_self s = t \<longrightarrow>
        st_self (snd (m s)) = t
        \<and> (\<forall>e. fst (m s) = Inl e \<longrightarrow> e = StructError \<or> e = UnicodeEncodeError))"

section \<open>Properties\<close>

subsection \<open>UTF-8\<close>

lemma digits3: "(q::nat) = x * 64 + y \<Longrightarrow> c = q * 64 + z \<Longrightarrow> x * 4096 + y * 64 + z = c"
  by simp

lemma digits4: "(p::nat) = w * 64 + x \<Longrightarrow> q = p * 64 + y \<Longrightarrow> c = q * 64 + z \<Longrightarrow> w * 262144 + x * 4096 + y * 64 + z = c"
  by simp

lemma split3: "(c::nat) div 4096 * 4096 + (c div 64 mod 64) * 64 + c mod 64 = c"
proof -
  have a: "c div 4096 = c div 64 div 64" by (simp add: div_mult2_eq)
  show ?thesis unfolding a by (rule digits3 [where q = "c div 64"]) simp_all
qed

lemma split4: "(c::nat) div 262144 * 262144 + (c div 4096 mod 64) * 4096 + (c div 64 mod 64) * 64 + c mod 64 = c"
proof -
  have a: "c div 262144 = c div 64 div 64 div 64" "c div 4096 = c div 64 div 64" by (simp_all add: div_mult2_eq)
  show ?thesis unfolding a by (rule digits4 [where q = "c div 64" and p = "c div 64 div 64"]) simp_all
qed

lemma lead_bounds:
  "128 \<le> c \<Longrightarrow> c < 2048 \<Longrightarrow> 2 \<le> c div 64 \<and> c div 64 < 32"
  "c < 65536 \<Longrightarrow> c div 4096 < (16::nat)"
  "c < 1114112 \<Longrightarrow> c div 262144 < (5::nat)"
  by (simp_all add: less_mult_imp_div_less le_div_geq)

lemma unat_byte_of: "n < 256 \<Longrightarrow> unat (byte_of n) = n"
  by (simp add: byte_of_def unat_of_nat)

lemma is_cont_cont: "is_cont (cont n)"
  by (simp add: is_cont_def cont_def unat_byte_of)

lemma payload_cont: "payload (cont n) = n mod 64"
  by (simp add: payload_def cont_def unat_byte_of)

lemma decode2:
  assumes "194 \<le> l" "l < 224"
  shows "utf8_decode (byte_of l # cont a # r) = bindE (utf8_decode r) (\<lambda>s. Inr (((l - 192) * 64 + a mod 64) # s))"
  using assms by (simp add: unat_byte_of is_cont_cont payload_cont)

lemma decode3:
  assumes "224 \<le> l" "l < 240" "2048 \<le> (l - 224) * 4096 + (a mod 64) * 64 + b mod 64"
     "\<not> surrogate ((l - 224) * 4096 + (a mod 64) * 64 + b mod 64)"
  shows "utf8_decode (byte_of l # cont a # cont b # r) = bindE (utf8_decode r) (\<lambda>s. Inr (((l - 224) * 4096 + (a mod 64) * 64 + b mod 64) # s))"
  using assms by (simp add: unat_byte_of is_cont_cont payload_cont Let_def)

lemma decode4:
  assumes "240 \<le> l" "l < 245" "65536 \<le> (l - 240) * 262144 + (a mod 64) * 4096 + (b mod 64) * 64 + d mod 64"
     "(l - 240) * 262144 + (a mod 64) * 4096 + (b mod 64) * 64 + d mod 64 < 1114112"
  shows "utf8_decode (byte_of l # cont a # cont b # cont d # r) = bindE (utf8_decode r) (\<lambda>s. Inr (((l - 240) * 262144 + (a mod 64) * 4096 + (b mod 64) * 64 + d mod 64) # s))"
  using assms by (simp add: unat_byte_of is_cont_cont payload_cont Let_def)

lemma utf8_decode_encode_cp:
  assumes "valid_cp c"
  shows "\<exists>bs. utf8_encode_cp c = Inr bs \<and> utf8_decode (bs @ r) = bindE (utf8_decode r) (\<lambda>s. Inr (c # s))"
proof -
  have v: "c < 1114112" "\<not> surrogate c" using assms by (simp_all add: valid_cp_def)
  consider "c < 128" | "128 \<le> c" "c < 2048" | "2048 \<le> c" "c < 65536" | "65536 \<le> c"
    by linarith
  then show ?thesis
  proof cases
    case 1
    then show ?thesis by (simp add: utf8_encode_cp_def unat_byte_of)
  next
    case 2
    define l where "l = 192 + c div 64"
    have l: "194 \<le> l" "l < 224"
      using lead_bounds(1) [OF 2] unfolding l_def by simp_all
    have c: "(l - 192) * 64 + c mod 64 = c" unfolding l_def by simp
    have "utf8_encode_cp c = Inr [byte_of l, cont c]"
      using 2 by (simp add: utf8_encode_cp_def l_def)
    then show ?thesis using decode2 [OF l, of c r] c by simp
  next
    case 3
    define l where "l = 224 + c div 4096"
    have c: "(l - 224) * 4096 + (c div 64 mod 64) * 64 + c mod 64 = c"
      unfolding l_def using split3 [of c] by simp
    have l: "224 \<le> l" "l < 240" 
      using lead_bounds(2) [OF 3(2)] unfolding l_def by simp_all
    have "utf8_encode_cp c = Inr [byte_of l, cont (c div 64), cont c]"
      using 3 v by (simp add: utf8_encode_cp_def l_def)
    moreover have "2048 \<le> (l - 224) * 4096 + (c div 64 mod 64) * 64 + c mod 64"
       "\<not> surrogate ((l - 224) * 4096 + (c div 64 mod 64) * 64 + c mod 64)"
      using 3 v unfolding c by simp_all
    ultimately show ?thesis using decode3 [OF l, of "c div 64" c r] c by simp
  next
    case 4
    define l where "l = 240 + c div 262144"
    have c: "(l - 240) * 262144 + (c div 4096 mod 64) * 4096 + (c div 64 mod 64) * 64 + c mod 64 = c"
      unfolding l_def using split4 [of c] by simp
    have l: "240 \<le> l" "l < 245" 
      using lead_bounds(3) [OF v(1)] unfolding l_def by simp_all
    have "utf8_encode_cp c = Inr [byte_of l, cont (c div 4096), cont (c div 64), cont c]"
      using 4 v by (simp add: utf8_encode_cp_def l_def)
    moreover have "65536 \<le> (l - 240) * 262144 + (c div 4096 mod 64) * 4096 + (c div 64 mod 64) * 64 + c mod 64"
       "(l - 240) * 262144 + (c div 4096 mod 64) * 4096 + (c div 64 mod 64) * 64 + c mod 64 < 1114112"
      using 4 v unfolding c by simp_all
    ultimately show ?thesis using decode4 [OF l, of "c div 4096" "c div 64" c r] c by simp
  qed
qed

lemma utf8_encode_cp_ok: "(\<exists>bs. utf8_encode_cp c = Inr bs) = valid_cp c"
  by (auto simp: utf8_encode_cp_def valid_cp_def surrogate_def)

lemma utf8_encode_ok: "(\<exists>bs. utf8_encode s = Inr bs) = list_all valid_cp s"
proof (induction s)
  case Nil
  show ?case by simp
next
  case (Cons c s)
  show ?case
  proof (cases "utf8_encode_cp c")
    case (Inl e)
    then have "\<not> valid_cp c" using utf8_encode_cp_ok [of c] by auto
    then show ?thesis using Inl by (simp add: bindE_def)
  next
    case (Inr bs)
    then have "valid_cp c" using utf8_encode_cp_ok [of c] by auto
    then show ?thesis using Inr Cons by (cases "utf8_encode s") (auto simp: bindE_def)
  qed
qed

lemma utf8_roundtrip:
  "list_all valid_cp s \<Longrightarrow> \<exists>bs. utf8_encode s = Inr bs \<and> utf8_decode bs = Inr s"
proof (induction s)
  case Nil
  show ?case by simp
next
  case (Cons c s)
  then obtain bs where bs: "utf8_encode s = Inr bs" "utf8_decode bs = Inr s" by auto
  from Cons.prems have "valid_cp c" by simp
  from utf8_decode_encode_cp [OF this, of bs] obtain cs where
    cs: "utf8_encode_cp c = Inr cs" "utf8_decode (cs @ bs) = bindE (utf8_decode bs) (\<lambda>s. Inr (c # s))"
    by blast
  show ?case using bs cs by (simp add: bindE_def)
qed

lemma cont_nonzero: "cont n \<noteq> 0"
proof
  assume "cont n = 0"
  then have "unat (cont n) = 0" by simp
  then show False by (simp add: cont_def unat_byte_of)
qed

lemma byte_of_nonzero: "0 < n \<Longrightarrow> n < 256 \<Longrightarrow> byte_of n \<noteq> 0"
proof
  assume n: "0 < n" "n < 256" and "byte_of n = 0"
  then have "unat (byte_of n) = 0" by simp
  then show False using n by (simp add: unat_byte_of)
qed

lemma utf8_encode_cp_nonzero:
  assumes "utf8_encode_cp c = Inr bs" "c \<noteq> 0"
  shows "0 \<notin> set bs \<and> bs \<noteq> []"
proof -
  have "c < 65536 \<Longrightarrow> 224 + c div 4096 < 256" "c < 1114112 \<Longrightarrow> 240 + c div 262144 < 256"
    "c < 2048 \<Longrightarrow> 192 + c div 64 < 256"
    using lead_bounds(2,3) [of c] by (simp_all add: less_mult_imp_div_less)
  then show ?thesis using assms
    by (auto simp: utf8_encode_cp_def cont_nonzero byte_of_nonzero split: if_splits)
qed

lemma utf8_encode_nonzero:
  "utf8_encode s = Inr bs \<Longrightarrow> 0 \<notin> set s \<Longrightarrow> 0 \<notin> set bs \<and> (s \<noteq> [] \<longrightarrow> bs \<noteq> [])"
proof (induction s arbitrary: bs)
  case Nil
  then show ?case by simp
next
  case (Cons c s)
  from Cons.prems(1) obtain cs r where
    cs: "utf8_encode_cp c = Inr cs" and r: "utf8_encode s = Inr r" and bs: "bs = cs @ r"
    by (auto simp: bindE_def split: sum.splits)
  from Cons.prems(2) have "c \<noteq> 0" "0 \<notin> set s" by auto
  then show ?case using utf8_encode_cp_nonzero [OF cs] Cons.IH [OF r] bs by auto
qed

subsection \<open>\<open>readNTString\<close>\<close>

lemma readNTString_loop_found:
  "drop pos buf = pre @ 0 # rest \<Longrightarrow> 0 \<notin> set pre \<Longrightarrow>
   readNTString_loop buf pos data = Some (data @ pre, pos + length pre + 1)"
proof (induction pre arbitrary: pos data)
  case Nil
  then show ?case
    by (subst readNTString_loop.simps) (simp add: f_read_def)
next
  case (Cons b pre)
  from Cons.prems have d: "drop (Suc pos) buf = pre @ 0 # rest"
    by (metis drop_Suc list.sel(3) tl_drop append_Cons)
  have b: "b \<noteq> 0" using Cons.prems by auto
  show ?case
    using Cons.prems(1) b Cons.IH [OF d, of "data @ [b]"] Cons.prems(2)
    by (subst readNTString_loop.simps) (simp add: f_read_def)
qed

lemma readNTString_loop_Some_NUL:
  assumes "readNTString_loop buf pos data = Some r"
  shows "0 \<in> set (drop pos buf)"
proof (rule readNTString_loop.raw_induct [where P = "\<lambda>buf pos data r. 0 \<in> set (drop pos buf)", OF _ assms])
  fix f :: "byte list \<Rightarrow> nat \<Rightarrow> byte list \<Rightarrow> (byte list \<times> nat) option"
  fix buf pos data r
  assume IH: "\<And>buf pos data r. f buf pos data = Some r \<Longrightarrow> 0 \<in> set (drop pos buf)"
  assume step: "(case f_read 1 buf pos of
        (c, pos') \<Rightarrow> if c \<noteq> [0] then f buf pos' (data @ c) else Some (data, pos')) = Some r"
  show "0 \<in> set (drop pos buf)"
  proof (cases "drop pos buf")
    case Nil
    with step have "f buf pos data = Some r" by (simp add: f_read_def)
    from IH [OF this] Nil show ?thesis by simp
  next
    case (Cons b bs)
    show ?thesis
    proof (cases "b = 0")
      case True
      with Cons show ?thesis by simp
    next
      case False
      with step Cons have "f buf (Suc pos) (data @ [b]) = Some r" by (simp add: f_read_def)
      from IH [OF this] have "0 \<in> set (drop (Suc pos) buf)" .
      moreover have "drop (Suc pos) buf = bs" using Cons by (metis drop_Suc tl_drop list.sel(3))
      ultimately show ?thesis using Cons by simp
    qed
  qed
qed

lemma readNTString_loop_None:
  "0 \<notin> set (drop pos buf) \<Longrightarrow> readNTString_loop buf pos data = None"
  using readNTString_loop_Some_NUL [of buf pos data] by (cases "readNTString_loop buf pos data") auto

lemma split_at_NUL:
  "0 \<in> set (xs :: byte list) \<Longrightarrow> xs = takeWhile (\<lambda>b. b \<noteq> 0) xs @ 0 # tl (dropWhile (\<lambda>b. b \<noteq> 0) xs)"
  by (induction xs) auto

lemma readNTString_loop_eq:
  "readNTString_loop buf pos data =
     (if 0 \<in> set (drop pos buf)
      then Some (data @ takeWhile (\<lambda>b. b \<noteq> 0) (drop pos buf),
                 pos + length (takeWhile (\<lambda>b. b \<noteq> 0) (drop pos buf)) + 1)
      else None)"
proof (cases "0 \<in> set (drop pos buf)")
  case True
  have "0 \<notin> set (takeWhile (\<lambda>b. b \<noteq> 0) (drop pos buf))"
    by (auto dest: set_takeWhileD)
  from readNTString_loop_found [OF split_at_NUL [OF True] this, of data] True
  show ?thesis by simp
next
  case False
  then show ?thesis by (simp add: readNTString_loop_None)
qed

subsection \<open>Evaluating the two programs on concrete files\<close>

lemmas prog_defs = toTlst_def toTlst_prog_def thenS_def bindS_def ret_def liftE_def f_write_def
  f_seek_def f_tell_def self_tracks_def self_tracks_at_def write_packed_def write_entry_def
  write_string_def write_strings_def write_at_def magic_def pack_I_def pack_H_def pack_b_def
  pack_bool_def be2_def be4_def utf8_encode_cp_def byte_of_def cont_def surrogate_def bindE_def

lemmas dec_defs = fromTlst_def read_unpack_def f_read_def unpack_I_def unpack_H_def unpack_b_def
  unpack_bool_def bindE_def be_int_def read_entry_def read_record_def read_title_def
  read_filename_def readNTString_def new_TLSTEntry_def new_TLST_def

lemma entries_loop_step:
  "entries_loop buf stringsOffset (numeral n) x entries =
     (case read_entry buf stringsOffset x of
        None \<Rightarrow> None
      | Some (Inl e) \<Rightarrow> Some (Inl e)
      | Some (Inr (entry, p)) \<Rightarrow>
          if p = length buf then Some (Inr (entries @ [entry]))
          else entries_loop buf stringsOffset (pred_numeral n) (Suc x) (entries @ [entry]))"
  by (simp add: numeral_eq_Suc)

lemma toTlst_song_a: "toTlst \<lparr>tracks = [song_a]\<rparr> = Inr song_a_bytes"
  by (simp add: prog_defs song_a_def song_a_bytes_def)

lemma fromTlst_song_a: "fromTlst song_a_bytes = Some (Inr \<lparr>tracks = [song_a]\<rparr>)"
  by (simp add: dec_defs readNTString_loop_eq entries_loop_step song_a_bytes_def song_a_def)

text \<open>
  C8. The track list holding the one entry \<open>song_a\<close> (songId 1, every other number 0,
  both flags false, title "Song A", filename "song_a.brstm") is written as a file of
  12 + 16 + 13 + 7 = 48 bytes; the header's string-table offset (bytes 10 and 11) is 28,
  the filename offset stored in the record (at 0 * 16 + 12 + 8) is 0 and the title offset
  (at 0 * 16 + 12 + 10) is 13: the filename comes first in the string region.
\<close>

theorem toTlst_song_a_layout:
  "toTlst \<lparr>tracks = [song_a]\<rparr> = Inr song_a_bytes
   \<and> length song_a_bytes = 12 + 16 + 13 + 7
   \<and> unpack_H (take 2 (drop 10 song_a_bytes)) = Inr 28
   \<and> unpack_H (take 2 (drop (0 * 16 + 12 + 8) song_a_bytes)) = Inr 0
   \<and> unpack_H (take 2 (drop (0 * 16 + 12 + 10) song_a_bytes)) = Inr 13
   \<and> readNTString song_a_bytes (28 + 0) = Some (Inr (filename song_a), 28 + 13)
   \<and> readNTString song_a_bytes (28 + 13) = Some (Inr (title song_a), 48)"
  using toTlst_song_a
  by (simp add: song_a_bytes_def song_a_def unpack_H_def be_int_def readNTString_def
      readNTString_loop_eq bindE_def)

text \<open>
  C4. A file whose only record declares title offset 0 with string-table offset 28, and
  which ends after that record (28 bytes): \<open>stringsOffset + titleOffset\<close> is the end of
  the file. The claim asks for a failure; \<open>readNTString\<close> reads \<open>b""\<close> for ever and
  \<open>fromTlst\<close> does not return.
\<close>

theorem fromTlst_offset_outside_diverges:
  "fromTlst [84, 76, 83, 84, 0, 0, 0, 1, 0, 28, 0, 28,
             0, 0, 0, 1, 0, 0, 0, 0, 255, 255, 0, 0, 0, 0, 0, 0] = None"
  by (simp add: dec_defs readNTString_loop_eq)

subsection \<open>Termination of the decoder\<close>

lemma readNTString_eq:
  "readNTString buf pos =
     (if 0 \<in> set (drop pos buf)
      then Some (utf8_decode (takeWhile (\<lambda>b. b \<noteq> 0) (drop pos buf)),
                 pos + length (takeWhile (\<lambda>b. b \<noteq> 0) (drop pos buf)) + 1)
      else None)"
  by (simp add: readNTString_def readNTString_loop_eq)

lemma read_title_terminates:
  "offset_terminated buf stringsOffset titleOffset \<Longrightarrow>
   read_title buf stringsOffset titleOffset entry p \<noteq> None"
  by (auto simp: read_title_def offset_terminated_def readNTString_eq split: sum.splits)

lemma read_filename_terminates:
  "offset_terminated buf stringsOffset filenameOffset \<Longrightarrow>
   read_filename buf stringsOffset filenameOffset entry p \<noteq> None"
  by (auto simp: read_filename_def offset_terminated_def readNTString_eq split: sum.splits)

lemma read_entry_terminates:
  assumes "record_terminated buf stringsOffset x"
  shows "read_entry buf stringsOffset x \<noteq> None"
proof (cases "read_record buf (x * 16 + 12)")
  case (Inl e)
  then show ?thesis by (simp add: read_entry_def)
next
  case (Inr r)
  obtain entry fo t p where r: "r = (entry, fo, t, p)" by (cases r) auto
  from assms Inr r have t: "offset_terminated buf stringsOffset t"
    and f: "offset_terminated buf stringsOffset fo"
    by (simp_all add: record_terminated_def)
  show ?thesis
  proof (cases "read_title buf stringsOffset t entry p")
    case None
    with read_title_terminates [OF t, of entry p] show ?thesis by simp
  next
    case (Some a)
    then show ?thesis using Inr r read_filename_terminates [OF f]
      by (cases a) (auto simp: read_entry_def)
  qed
qed

lemma entries_loop_terminates:
  "(\<And>y. x \<le> y \<Longrightarrow> y < x + k \<Longrightarrow> record_terminated buf stringsOffset y) \<Longrightarrow>
   entries_loop buf stringsOffset k x entries \<noteq> None"
proof (induction k arbitrary: x entries)
  case 0
  show ?case by simp
next
  case (Suc k)
  have "read_entry buf stringsOffset x \<noteq> None"
    by (rule read_entry_terminates) (rule Suc.prems, simp_all)
  then obtain r where r: "read_entry buf stringsOffset x = Some r" by auto
  have IH: "entries_loop buf stringsOffset k (Suc x) es \<noteq> None" for es
    by (rule Suc.IH) (rule Suc.prems, simp_all)
  show ?case
  proof (cases r)
    case (Inl e)
    with r show ?thesis by simp
  next
    case (Inr ep)
    with r IH show ?thesis by (cases ep) simp
  qed
qed

lemma fromTlst_terminates:
  assumes "strings_terminated buf"
  shows "fromTlst buf \<noteq> None"
proof (cases "read_unpack unpack_I 4 buf 4")
  case (Inl e)
  then show ?thesis by (simp add: fromTlst_def)
next
  case (Inr np)
  obtain n p where np: "np = (n, p)" by (cases np) auto
  show ?thesis
  proof (cases "read_unpack unpack_H 2 buf (p + 2)")
    case (Inl e)
    with Inr np show ?thesis by (simp add: fromTlst_def)
  next
    case so: (Inr sp)
    obtain s p' where sp: "sp = (s, p')" by (cases sp) auto
    from assms Inr np so sp
    have "list_all (record_terminated buf s) [0..<nat n]"
      by (simp add: strings_terminated_def)
    then have "entries_loop buf s (nat n) 0 [] \<noteq> None"
      by (intro entries_loop_terminates) (simp add: list_all_iff)
    then show ?thesis using Inr np so sp
      by (auto simp: fromTlst_def split: sum.splits)
  qed
qed

text \<open>
  C9. \<open>readNTString\<close> returns exactly when a zero byte occurs at or after the read
  position; it then returns the bytes before the first one, decoded as UTF-8 (or the
  decoding error), and leaves the position just past that zero byte. Hence \<open>fromTlst\<close>
  returns, with a track list or an exception, on every file in which each string offset
  declared by a record (other than 0xFFFF) is followed by a zero byte.
\<close>

theorem readNTString_terminates_iff:
  "(readNTString buf pos \<noteq> None) = (0 \<in> set (drop pos buf))
   \<and> (0 \<in> set (drop pos buf) \<longrightarrow>
        readNTString buf pos =
          Some (utf8_decode (takeWhile (\<lambda>b. b \<noteq> 0) (drop pos buf)),
                pos + length (takeWhile (\<lambda>b. b \<noteq> 0) (drop pos buf)) + 1))
   \<and> (strings_terminated buf \<longrightarrow> (\<exists>r. fromTlst buf = Some r))"
  using fromTlst_terminates [of buf] by (auto simp: readNTString_eq)

theorem readNTString_terminates_iff_witness:
  "0 \<in> set (drop 28 song_a_bytes)
   \<and> readNTString song_a_bytes 28 = Some (Inr (filename song_a), 41)
   \<and> strings_terminated song_a_bytes
   \<and> fromTlst song_a_bytes = Some (Inr \<lparr>tracks = [song_a]\<rparr>)"
proof -
  have a: "0 \<in> set (drop 28 song_a_bytes)" by (simp add: song_a_bytes_def)
  have b: "strings_terminated song_a_bytes"
    by (simp add: strings_terminated_def record_terminated_def offset_terminated_def dec_defs
        song_a_bytes_def)
  have c: "utf8_decode (takeWhile (\<lambda>b. b \<noteq> 0) (drop 28 song_a_bytes)) = Inr (filename song_a)"
    by (simp add: song_a_bytes_def song_a_def bindE_def)
  have d: "28 + length (takeWhile (\<lambda>b. b \<noteq> 0) (drop 28 song_a_bytes)) + 1 = 41"
    by (simp add: song_a_bytes_def)
  from readNTString_terminates_iff [of song_a_bytes 28] a b c d fromTlst_song_a
  show ?thesis by simp
qed

subsection \<open>Reading one record\<close>

lemma take1_drop: "take (Suc 0) (drop n xs) = (if n < length xs then [xs ! n] else [])"
  by (simp add: take_Suc_conv_app_nth)

lemma read_unpack_I: "read_unpack unpack_I 4 buf p =
  (if p + 4 \<le> length buf then Inr (be_int (take 4 (drop p buf)), p + 4) else Inl StructError)"
  by (auto simp: read_unpack_def f_read_def unpack_I_def bindE_def min_def)

lemma read_unpack_H: "read_unpack unpack_H 2 buf p =
  (if p + 2 \<le> length buf then Inr (be_int (take 2 (drop p buf)), p + 2) else Inl StructError)"
  by (auto simp: read_unpack_def f_read_def unpack_H_def bindE_def min_def)

lemma read_unpack_b: "read_unpack unpack_b (Suc 0) buf p =
  (if p + 1 \<le> length buf then Inr (sint (buf ! p), p + 1) else Inl StructError)"
  by (auto simp: read_unpack_def f_read_def unpack_b_def bindE_def take1_drop)

lemma read_unpack_bool: "read_unpack unpack_bool (Suc 0) buf p =
  (if p + 1 \<le> length buf then Inr (buf ! p \<noteq> 0, p + 1) else Inl StructError)"
  by (auto simp: read_unpack_def f_read_def unpack_bool_def bindE_def take1_drop)

lemmas read_unpack_eqs = read_unpack_I read_unpack_H read_unpack_b read_unpack_bool

lemma read_record_short: "length buf < p + 16 \<Longrightarrow> read_record buf p = Inl StructError"
  by (simp add: read_record_def read_unpack_eqs bindE_def)

lemma read_record_full:
  "p + 16 \<le> length buf \<Longrightarrow> read_record buf p =
     Inr (\<lparr>songId = be_int (take 4 (drop p buf)), delay = be_int (take 2 (drop (p + 4) buf)),
           volume = sint (buf ! (p + 6)), frequency = sint (buf ! (p + 7)),
           switch = be_int (take 2 (drop (p + 12) buf)),
           disablePinch = (buf ! (p + 14) \<noteq> 0), disableTlstInclusion = (buf ! (p + 15) \<noteq> 0),
           title = [], filename = []\<rparr>,
          be_int (take 2 (drop (p + 8) buf)), be_int (take 2 (drop (p + 10) buf)), p + 16)"
  by (simp add: read_record_def read_unpack_eqs bindE_def new_TLSTEntry_def add.commute)

subsection \<open>The header: length and tag\<close>

lemma be_int_nonneg: "0 \<le> be_int bs"
proof -
  have "0 \<le> a \<Longrightarrow> 0 \<le> foldl (\<lambda>a b. a * 256 + uint b) a bs" for a
    by (induction bs arbitrary: a) simp_all
  then show ?thesis by (simp add: be_int_def)
qed

lemma fromTlst_short: "length buf < 12 \<Longrightarrow> fromTlst buf = Some (Inl StructError)"
  by (simp add: fromTlst_def read_unpack_eqs)

lemma read_record_offsets_nonneg:
  assumes "read_record buf p = Inr (entry, fo, t, q)"
  shows "0 \<le> fo \<and> 0 \<le> t"
proof (cases "p + 16 \<le> length buf")
  case True
  from assms show ?thesis unfolding read_record_full [OF True] by (auto simp: be_int_nonneg)
next
  case False
  with assms show ?thesis by (simp add: read_record_short)
qed

text \<open>Two files that differ in the first four bytes only.\<close>

lemma read_record_tag:
  assumes "length tag = 4" "length tag' = 4" "4 \<le> p"
  shows "read_record (tag @ rest) p = read_record (tag' @ rest) p"
proof (cases "p + 16 \<le> length (tag @ rest)")
  case True
  then have "p + 16 \<le> length (tag' @ rest)" using assms by simp
  with True assms show ?thesis by (simp add: read_record_full nth_append)
next
  case False
  then have "\<not> p + 16 \<le> length (tag' @ rest)" using assms by simp
  with False show ?thesis by (simp add: read_record_short)
qed

lemma readNTString_tag:
  assumes "length tag = 4" "length tag' = 4" "4 \<le> p"
  shows "readNTString (tag @ rest) p = readNTString (tag' @ rest) p"
  using assms by (simp add: readNTString_eq)

lemma read_entry_tag:
  assumes "length tag = 4" "length tag' = 4" "4 \<le> stringsOffset"
  shows "read_entry (tag @ rest) stringsOffset x = read_entry (tag' @ rest) stringsOffset x"
proof (cases "read_record (tag' @ rest) (x * 16 + 12)")
  case (Inl e)
  then show ?thesis using read_record_tag [OF assms(1,2), of "x * 16 + 12" rest]
    by (simp add: read_entry_def)
next
  case (Inr r)
  obtain entry fo t p where r: "r = (entry, fo, t, p)" by (cases r) auto
  from Inr r have "0 \<le> fo" "0 \<le> t"
    using read_record_offsets_nonneg [of "tag' @ rest" "x * 16 + 12" entry fo t p] by simp_all
  then have pos: "4 \<le> nat (t + stringsOffset)" "4 \<le> nat (fo + stringsOffset)"
    using assms(3) by simp_all
  have t: "read_title (tag @ rest) stringsOffset t e q = read_title (tag' @ rest) stringsOffset t e q" for e q
    using readNTString_tag [OF assms(1,2) pos(1), of rest] by (simp add: read_title_def)
  have f: "read_filename (tag @ rest) stringsOffset fo e q = read_filename (tag' @ rest) stringsOffset fo e q" for e q
    using readNTString_tag [OF assms(1,2) pos(2), of rest] by (simp add: read_filename_def)
  show ?thesis
    using read_record_tag [OF assms(1,2), of "x * 16 + 12" rest] Inr r
    by (simp add: read_entry_def t f split: option.split sum.split prod.split)
qed

lemma entries_loop_tag:
  assumes "length tag = 4" "length tag' = 4" "4 \<le> stringsOffset"
  shows "entries_loop (tag @ rest) stringsOffset k x entries =
         entries_loop (tag' @ rest) stringsOffset k x entries"
proof (induction k arbitrary: x entries)
  case 0
  show ?case by simp
next
  case (Suc k)
  show ?case using assms(1,2)
    by (simp add: read_entry_tag [OF assms] Suc.IH split: option.split sum.split prod.split)
qed

lemma fromTlst_tag:
  assumes "length tag = 4" "length tag' = 4"
    and "read_unpack unpack_H 2 (tag @ rest) 10 = Inr (stringsOffset, p)" "4 \<le> stringsOffset"
  shows "fromTlst (tag @ rest) = fromTlst (tag' @ rest)"
proof -
  have I: "read_unpack unpack_I 4 (tag @ rest) 4 = read_unpack unpack_I 4 (tag' @ rest) 4"
    using assms(1,2) by (simp add: read_unpack_eqs)
  have H: "read_unpack unpack_H 2 (tag @ rest) 10 = read_unpack unpack_H 2 (tag' @ rest) 10"
    using assms(1,2) by (simp add: read_unpack_eqs)
  show ?thesis
  proof (cases "read_unpack unpack_I 4 (tag' @ rest) 4")
    case (Inl e)
    with I show ?thesis by (simp add: fromTlst_def)
  next
    case (Inr np)
    then have np: "snd np = 8" by (auto simp: read_unpack_eqs split: if_splits)
    obtain n where n: "np = (n, 8)" using np by (cases np) auto
    have H': "read_unpack unpack_H 2 (tag' @ rest) 10 = Inr (stringsOffset, p)"
      using H assms(3) by simp
    show ?thesis using I Inr n
      by (simp add: fromTlst_def assms(3) H' entries_loop_tag [OF assms(1,2,4)])
  qed
qed

text \<open>
  C3, as the code has it. A file shorter than the 12-byte header makes \<open>fromTlst\<close> fail
  (\<open>struct.error\<close>, raised by \<open>struct.unpack\<close> on a short read). The first four
  bytes are skipped (\<open>f.seek(0x4)\<close>, "skip magic") and never compared with \<open>TLST\<close>:
  replacing them by any other four bytes leaves the result unchanged, whenever the
  header's string-table offset is at least 4, so that no string is read from them.
\<close>

theorem fromTlst_magic_not_checked:
  "(length buf < 12 \<longrightarrow> fromTlst buf = Some (Inl StructError))
   \<and> (length tag = 4 \<and> length tag' = 4
        \<and> read_unpack unpack_H 2 (tag @ rest) 10 = Inr (stringsOffset, p)
        \<and> 4 \<le> stringsOffset
      \<longrightarrow> fromTlst (tag @ rest) = fromTlst (tag' @ rest))"
  using fromTlst_short [of buf] fromTlst_tag [of tag tag' rest stringsOffset p] by blast

theorem fromTlst_magic_not_checked_witness:
  "length [84, 76, 83, 84, 0, 0, 0 :: byte] < 12
   \<and> fromTlst [84, 76, 83, 84, 0, 0, 0] = Some (Inl StructError)
   \<and> length magic = 4 \<and> length [88, 76, 83, 84 :: byte] = 4
   \<and> read_unpack unpack_H 2 (magic @ drop 4 song_a_bytes) 10 = Inr (28, 12)
   \<and> fromTlst ([88, 76, 83, 84] @ drop 4 song_a_bytes) = Some (Inr \<lparr>tracks = [song_a]\<rparr>)"
proof -
  have a: "length [84, 76, 83, 84, 0, 0, 0 :: byte] < 12" by simp
  have b: "length magic = 4 \<and> length [88, 76, 83, 84 :: byte] = 4
     \<and> read_unpack unpack_H 2 (magic @ drop 4 song_a_bytes) 10 = Inr (28, 12) \<and> (4::int) \<le> 28"
    by (simp add: magic_def song_a_bytes_def read_unpack_eqs be_int_def)
  have c: "magic @ drop 4 song_a_bytes = song_a_bytes"
    by (simp add: magic_def song_a_bytes_def)
  from fromTlst_magic_not_checked [of "[84, 76, 83, 84, 0, 0, 0]" magic "[88, 76, 83, 84]"
      "drop 4 song_a_bytes" 28 12] a b
  show ?thesis using fromTlst_song_a by (simp add: c)
qed

text \<open>
  C3 as stated fails: a 12-byte file tagged \<open>XXXX\<close> with entry count 0 is decoded to
  the empty track list.
\<close>

theorem fromTlst_bad_magic_accepted:
  "take 4 [88, 88, 88, 88, 0, 0, 0, 0, 0, 12, 0, 12] \<noteq> magic \<and>
   fromTlst [88, 88, 88, 88, 0, 0, 0, 0, 0, 12, 0, 12] = Some (Inr \<lparr>tracks = []\<rparr>)"
  by (simp add: dec_defs magic_def)

subsection \<open>The early stop\<close>

lemma entries_loop_prefix:
  "(\<And>x. x < length es \<Longrightarrow>
      \<exists>q. read_entry buf stringsOffset (x0 + x) = Some (Inr (es ! x, q)) \<and> q \<noteq> length buf) \<Longrightarrow>
   entries_loop buf stringsOffset (length es + k) x0 entries =
   entries_loop buf stringsOffset k (x0 + length es) (entries @ es)"
proof (induction es arbitrary: x0 entries)
  case Nil
  show ?case by simp
next
  case (Cons e es)
  from Cons.prems [of 0] obtain q where
    q: "read_entry buf stringsOffset x0 = Some (Inr (e, q))" "q \<noteq> length buf" by auto
  have "\<exists>q. read_entry buf stringsOffset (Suc x0 + x) = Some (Inr (es ! x, q)) \<and> q \<noteq> length buf"
    if "x < length es" for x
    using Cons.prems [of "Suc x"] that by simp
  from Cons.IH [OF this, of "entries @ [e]"] q show ?case by simp
qed

text \<open>
  C6, as the code has it. Let the header declare \<open>numEntries\<close> and let the entries
  \<open>es\<close>, fewer than \<open>numEntries\<close>, be read without the position ending at the end
  of the file. If reading the next entry leaves the position at the end of the file, the
  loop stops and \<open>fromTlst\<close> returns the entries read so far, although fewer than
  \<open>numEntries\<close>. If instead the file ends before the end of the next record, that is, it
  is shorter than \<open>length es * 16 + 12 + 16\<close> bytes, \<open>fromTlst\<close> fails (\<open>struct.error\<close>)
  and returns no track list. Nothing is said of a file that is long enough for the next
  record: whatever bytes lie there are read as a record.
\<close>

theorem fromTlst_early_stop:
  assumes "read_unpack unpack_I 4 buf 4 = Inr (numEntries, p)"
    and "read_unpack unpack_H 2 buf (p + 2) = Inr (stringsOffset, p')"
    and "length es < nat numEntries"
    and "\<forall>x<length es. \<exists>q. read_entry buf stringsOffset x = Some (Inr (es ! x, q)) \<and> q \<noteq> length buf"
  shows "(read_entry buf stringsOffset (length es) = Some (Inr (e, length buf))
            \<longrightarrow> fromTlst buf = Some (Inr \<lparr>tracks = es @ [e]\<rparr>))
       \<and> (length buf < length es * 16 + 12 + 16 \<longrightarrow> fromTlst buf = Some (Inl StructError))"
proof -
  obtain k where k: "nat numEntries = length es + Suc k"
    using assms(3) by (metis less_iff_Suc_add add_Suc_right)
  have loop: "entries_loop buf stringsOffset (nat numEntries) 0 [] =
      entries_loop buf stringsOffset (Suc k) (length es) es"
    unfolding k using entries_loop_prefix [of es buf stringsOffset 0 "Suc k" "[]"] assms(4) by simp
  have "fromTlst buf = Some (Inr \<lparr>tracks = es @ [e]\<rparr>)"
    if "read_entry buf stringsOffset (length es) = Some (Inr (e, length buf))"
    using that assms(1,2) loop by (simp add: fromTlst_def new_TLST_def)
  moreover have "fromTlst buf = Some (Inl StructError)"
    if "length buf < length es * 16 + 12 + 16"
  proof -
    have "read_entry buf stringsOffset (length es) = Some (Inl StructError)"
      using read_record_short [OF that] by (simp add: read_entry_def)
    then show ?thesis using assms(1,2) loop by (simp add: fromTlst_def)
  qed
  ultimately show ?thesis by blast
qed

theorem fromTlst_early_stop_witness:
  "fromTlst stop_bytes =
     Some (Inr \<lparr>tracks = [new_TLSTEntry\<lparr>songId := 1\<rparr>, new_TLSTEntry\<lparr>songId := 2, filename := [65]\<rparr>]\<rparr>)
   \<and> read_unpack unpack_I 4 stop_bytes 4 = Inr (3, 8)
   \<and> fromTlst fail_bytes = Some (Inl StructError)
   \<and> read_unpack unpack_I 4 fail_bytes 4 = Inr (2, 8)"
proof -
  let ?e0 = "new_TLSTEntry\<lparr>songId := 1\<rparr>"
  let ?e1 = "new_TLSTEntry\<lparr>songId := 2, filename := [65]\<rparr>"
  have a1: "read_unpack unpack_I 4 stop_bytes 4 = Inr (3, 8)"
    and a2: "read_unpack unpack_H 2 stop_bytes (8 + 2) = Inr (44, 12)"
    by (simp_all add: stop_bytes_def read_unpack_eqs be_int_def)
  have a3: "length [?e0] < nat 3" by simp
  have a4: "\<forall>x<length [?e0]. \<exists>q. read_entry stop_bytes 44 x = Some (Inr ([?e0] ! x, q)) \<and> q \<noteq> length stop_bytes"
    by (simp add: stop_bytes_def dec_defs readNTString_loop_eq)
  have a5: "read_entry stop_bytes 44 (length [?e0]) = Some (Inr (?e1, length stop_bytes))"
    by (simp add: stop_bytes_def dec_defs readNTString_loop_eq)
  let ?f0 = "new_TLSTEntry\<lparr>songId := 1, title := [66], filename := [65]\<rparr>"
  have b1: "read_unpack unpack_I 4 fail_bytes 4 = Inr (2, 8)"
    and b2: "read_unpack unpack_H 2 fail_bytes (8 + 2) = Inr (28, 12)"
    by (simp_all add: fail_bytes_def read_unpack_eqs be_int_def)
  have b3: "length [?f0] < nat 2" by simp
  have b4: "\<forall>x<length [?f0]. \<exists>q. read_entry fail_bytes 28 x = Some (Inr ([?f0] ! x, q)) \<and> q \<noteq> length fail_bytes"
    by (simp add: fail_bytes_def dec_defs readNTString_loop_eq)
  have b5: "length fail_bytes < length [?f0] * 16 + 12 + 16" by (simp add: fail_bytes_def)
  from fromTlst_early_stop [OF a1 a2 a3 a4, of ?e1] a5
       fromTlst_early_stop [OF b1 b2 b3 b4] b5 a1 b1
  show ?thesis by simp
qed

text \<open>
  C6 as stated fails: \<open>fail_bytes\<close> declares two entries and holds one; after that
  entry the position is before its title, not at the end of the file, and reading the
  second record fails.
\<close>

theorem fromTlst_count_exceeds_fails:
  "read_unpack unpack_I 4 fail_bytes 4 = Inr (2, 8)
   \<and> length fail_bytes < 12 + 2 * 16
   \<and> fromTlst fail_bytes = Some (Inl StructError)"
  by (simp add: fail_bytes_def dec_defs readNTString_loop_eq entries_loop_step)

subsection \<open>The JSON mapping\<close>

lemma small_int_str_ok: "\<bar>i\<bar> < 4294967296 \<Longrightarrow> int_str_ok i"
proof -
  assume a: "\<bar>i\<bar> < 4294967296"
  have "(10::int) ^ 10 \<le> 10 ^ int_max_str_digits"
    by (rule power_increasing) (simp_all add: int_max_str_digits_def)
  moreover have "(4294967296::int) < 10 ^ 10" by simp
  ultimately show ?thesis unfolding int_str_ok_def using a by linarith
qed

lemma scanstring_skip: "\<not> high_surrogate c \<Longrightarrow> scanstring (c # us) = c # scanstring us"
  by (cases us) simp_all

lemma scanstring_encode:
  "list_all valid_cp s \<Longrightarrow> scanstring (encode_basestring_ascii s) = s"
proof (induction s)
  case Nil
  show ?case by simp
next
  case (Cons c cs)
  then have v: "c < 1114112" "\<not> surrogate c" and ih: "scanstring (encode_basestring_ascii cs) = cs"
    by (simp_all add: valid_cp_def)
  show ?case
  proof (cases "c < 65536")
    case True
    have "\<not> high_surrogate c" using v(2) by (auto simp: high_surrogate_def surrogate_def)
    then show ?thesis using True ih by (simp add: scanstring_skip)
  next
    case False
    define n where "n = c - 65536"
    have n: "n < 1048576" "c = 65536 + n" using False v(1) by (simp_all add: n_def)
    have d: "n div 1024 < 1024" using n(1) by simp
    have h: "high_surrogate (55296 + n div 1024)" using d by (simp add: high_surrogate_def)
    have l: "low_surrogate (56320 + n mod 1024)" by (simp add: low_surrogate_def)
    have "65536 + (n div 1024) * 1024 + n mod 1024 = c" using n(2) by simp
    then show ?thesis using False h l ih by (simp add: n_def)
  qed
qed

lemma encode_ascii: "list_all (\<lambda>c. c < 128) s \<Longrightarrow> encode_basestring_ascii s = s"
  by (induction s) simp_all

lemmas key_defs = str_def dict_has_def dict_get_def dict_of_pairs_def bindE_def

lemma encode_key:
  "encode_basestring_ascii (str ''songId'') = str ''songId''"
  "encode_basestring_ascii (str ''delay'') = str ''delay''"
  "encode_basestring_ascii (str ''volume'') = str ''volume''"
  "encode_basestring_ascii (str ''frequency'') = str ''frequency''"
  "encode_basestring_ascii (str ''switch'') = str ''switch''"
  "encode_basestring_ascii (str ''disablePinch'') = str ''disablePinch''"
  "encode_basestring_ascii (str ''disableTlstInclusion'') = str ''disableTlstInclusion''"
  "encode_basestring_ascii (str ''title'') = str ''title''"
  "encode_basestring_ascii (str ''filename'') = str ''filename''"
  "encode_basestring_ascii (str ''tracks'') = str ''tracks''"
  by (simp_all add: str_def)

lemma scan_key:
  "scanstring (str ''songId'') = str ''songId''"
  "scanstring (str ''delay'') = str ''delay''"
  "scanstring (str ''volume'') = str ''volume''"
  "scanstring (str ''frequency'') = str ''frequency''"
  "scanstring (str ''switch'') = str ''switch''"
  "scanstring (str ''disablePinch'') = str ''disablePinch''"
  "scanstring (str ''disableTlstInclusion'') = str ''disableTlstInclusion''"
  "scanstring (str ''title'') = str ''title''"
  "scanstring (str ''filename'') = str ''filename''"
  "scanstring (str ''tracks'') = str ''tracks''"
  by (simp_all add: str_def high_surrogate_def)

lemma dict_to_object_entry_dict:
  "dict_to_object (dict_of_pairs [(str ''songId'', a), (str ''delay'', b), (str ''volume'', c),
      (str ''frequency'', d), (str ''switch'', e), (str ''disablePinch'', f),
      (str ''disableTlstInclusion'', g), (str ''title'', h), (str ''filename'', i)]) =
   Inr (PEntry a b c d e f g h i)"
  by (simp add: dict_to_object_def key_defs)

lemma dict_to_object_tracks_dict:
  "dict_to_object (dict_of_pairs [(str ''tracks'', v)]) = Inr (PTLST v)"
  by (simp add: dict_to_object_def key_defs)

lemma to_json_entry:
  "json_entry_ok e \<Longrightarrow> to_json (obj_of_entry e) = Inr (entry_json e)"
  by (simp add: json_entry_ok_def obj_of_entry_def entry_json_def default_enc_def encode_key)

lemma from_json_entry:
  "json_entry_ok e \<Longrightarrow> from_json (entry_json e) = Inr (obj_of_entry e)"
  by (simp add: json_entry_ok_def entry_json_def obj_of_entry_def bindE_def scan_key
      scanstring_encode dict_to_object_entry_dict)

lemma to_json_list_entries:
  "list_all json_entry_ok es \<Longrightarrow> to_json_list (map obj_of_entry es) = Inr (map entry_json es)"
  by (induction es) (simp_all add: to_json_entry)

lemma from_json_list_entries:
  "list_all json_entry_ok es \<Longrightarrow> from_json_list (map entry_json es) = Inr (map obj_of_entry es)"
  by (induction es) (simp_all add: from_json_entry bindE_def)

lemma toJson_eq: "list_all json_entry_ok (tracks t) \<Longrightarrow> toJson t = Inr (tracks_json t)"
  by (simp add: toJson_def obj_of_TLST_def tracks_json_def default_enc_def to_json_list_entries
      encode_key)

lemma fromJson_tracks_json:
  "list_all json_entry_ok (tracks t) \<Longrightarrow> fromJson (tracks_json t) = Inr (obj_of_TLST t)"
  by (simp add: fromJson_def tracks_json_def obj_of_TLST_def from_json_list_entries bindE_def
      scan_key dict_to_object_tracks_dict)

text \<open>
  Claim C7. Take a track list of the record model: its integers print in at most 4300
  digits (every value of the declared field widths does) and its strings are Unicode text,
  the strings that can be encoded as UTF-8. Writing it as JSON succeeds; the encoder calls
  \<open>default\<close> on the list and on each entry, and the document is the object with the one
  member \<open>tracks\<close>, an array of one object per entry, in the order of the list, each with
  all nine fields, empty strings included. Reading that document back gives the same track
  list, so the JSON round trip loses nothing.
\<close>

theorem json_round_trip:
  assumes "list_all json_entry_ok (tracks t)"
  shows "toJson t = Inr (tracks_json t) \<and> bindE (toJson t) fromJson = Inr (obj_of_TLST t)"
  using toJson_eq [OF assms] fromJson_tracks_json [OF assms] by (simp add: bindE_def)

lemma song_a_json_ok: "json_entry_ok song_a"
  by (simp add: json_entry_ok_def song_a_def small_int_str_ok valid_cp_def surrogate_def)

theorem json_round_trip_witness:
  "list_all json_entry_ok (tracks \<lparr>tracks = [song_a]\<rparr>)
   \<and> toJson \<lparr>tracks = [song_a]\<rparr> =
       Inr (JObj [(str ''tracks'', JArr [JObj [(str ''songId'', JInt 1), (str ''delay'', JInt 0),
           (str ''volume'', JInt 0), (str ''frequency'', JInt 0),
           (str ''switch'', JInt 0), (str ''disablePinch'', JBool False),
           (str ''disableTlstInclusion'', JBool False),
           (str ''title'', JStr (str ''Song A'')),
           (str ''filename'', JStr (str ''song_a.brstm''))]])])
   \<and> bindE (toJson \<lparr>tracks = [song_a]\<rparr>) fromJson = Inr (obj_of_TLST \<lparr>tracks = [song_a]\<rparr>)"
proof -
  have ok: "list_all json_entry_ok (tracks \<lparr>tracks = [song_a]\<rparr>)"
    using song_a_json_ok by simp
  note r = json_round_trip [OF ok]
  have doc: "tracks_json \<lparr>tracks = [song_a]\<rparr> =
       JObj [(str ''tracks'', JArr [JObj [(str ''songId'', JInt 1), (str ''delay'', JInt 0),
           (str ''volume'', JInt 0), (str ''frequency'', JInt 0),
           (str ''switch'', JInt 0), (str ''disablePinch'', JBool False),
           (str ''disableTlstInclusion'', JBool False),
           (str ''title'', JStr (str ''Song A'')),
           (str ''filename'', JStr (str ''song_a.brstm''))]])]"
    by (simp add: tracks_json_def entry_json_def song_a_def str_def)
  from r [THEN conjunct1] doc r [THEN conjunct2] ok show ?thesis
    by (intro conjI) simp_all
qed

lemma dict_get_Some: "map_of d k = Some v \<Longrightarrow> dict_get d k = Inr v"
  by (simp add: dict_get_def)

lemma dict_get_None: "map_of d k = None \<Longrightarrow> dict_get d k = Inl KeyError"
  by (simp add: dict_get_def)

lemma dict_get_cases: "dict_get d k = Inl KeyError \<or> (\<exists>v. dict_get d k = Inr v)"
  by (cases "map_of d k") (simp_all add: dict_get_def)

text \<open>
  Claim C2, as the code has it. The hook substitutes no default for a missing field. A JSON
  object is decoded as an entry exactly when it has the key \<open>songId\<close>; the entry then takes
  all nine values from the object, and if any of the eight other fields is missing the
  lookup raises \<open>KeyError\<close>. An object without \<open>songId\<close> is not an entry: it becomes a
  \<open>TLST\<close> when it has \<open>tracks\<close>, and stays a \<open>dict\<close> otherwise.
\<close>

theorem dict_to_object_missing_field:
  "(map_of d (str ''songId'') = Some a \<and> map_of d (str ''delay'') = Some b
      \<and> map_of d (str ''volume'') = Some c \<and> map_of d (str ''frequency'') = Some f
      \<and> map_of d (str ''switch'') = Some s \<and> map_of d (str ''disablePinch'') = Some p
      \<and> map_of d (str ''disableTlstInclusion'') = Some i \<and> map_of d (str ''title'') = Some t
      \<and> map_of d (str ''filename'') = Some n
    \<longrightarrow> dict_to_object d = Inr (PEntry a b c f s p i t n))
   \<and> (dict_has d (str ''songId'')
      \<and> (\<exists>k \<in> set [str ''delay'', str ''volume'', str ''frequency'', str ''switch'',
             str ''disablePinch'', str ''disableTlstInclusion'', str ''title'', str ''filename''].
            \<not> dict_has d k)
    \<longrightarrow> dict_to_object d = Inl KeyError)
   \<and> (\<not> dict_has d (str ''songId'')
    \<longrightarrow> dict_to_object d =
          (if dict_has d (str ''tracks'') then bindE (dict_get d (str ''tracks'')) (\<lambda>v. Inr (PTLST v))
           else Inr (PDict d)))"
proof (intro conjI impI)
  assume "map_of d (str ''songId'') = Some a \<and> map_of d (str ''delay'') = Some b
      \<and> map_of d (str ''volume'') = Some c \<and> map_of d (str ''frequency'') = Some f
      \<and> map_of d (str ''switch'') = Some s \<and> map_of d (str ''disablePinch'') = Some p
      \<and> map_of d (str ''disableTlstInclusion'') = Some i \<and> map_of d (str ''title'') = Some t
      \<and> map_of d (str ''filename'') = Some n"
  then show "dict_to_object d = Inr (PEntry a b c f s p i t n)"
    by (simp add: dict_to_object_def dict_has_def dict_get_Some bindE_def)
next
  assume h: "dict_has d (str ''songId'')
      \<and> (\<exists>k \<in> set [str ''delay'', str ''volume'', str ''frequency'', str ''switch'',
             str ''disablePinch'', str ''disableTlstInclusion'', str ''title'', str ''filename''].
            \<not> dict_has d k)"
  then have m: "map_of d (str ''delay'') = None \<or> map_of d (str ''volume'') = None
      \<or> map_of d (str ''frequency'') = None \<or> map_of d (str ''switch'') = None
      \<or> map_of d (str ''disablePinch'') = None \<or> map_of d (str ''disableTlstInclusion'') = None
      \<or> map_of d (str ''title'') = None \<or> map_of d (str ''filename'') = None"
    by (auto simp: dict_has_def)
  from h have s: "dict_has d (str ''songId'')" by simp
  show "dict_to_object d = Inl KeyError"
    using m unfolding dict_to_object_def dict_get_def bindE_def
    by (simp only: s if_True) (auto split: option.split)
next
  assume "\<not> dict_has d (str ''songId'')"
  then show "dict_to_object d =
          (if dict_has d (str ''tracks'') then bindE (dict_get d (str ''tracks'')) (\<lambda>v. Inr (PTLST v))
           else Inr (PDict d))"
    by (simp add: dict_to_object_def)
qed

theorem dict_to_object_missing_field_witness:
  "dict_to_object [(str ''songId'', PInt 1), (str ''delay'', PInt 0), (str ''volume'', PInt 0),
      (str ''frequency'', PInt 0), (str ''switch'', PInt 0), (str ''disablePinch'', PBool True),
      (str ''disableTlstInclusion'', PBool False), (str ''title'', PStr (str ''Song A'')),
      (str ''filename'', PStr (str ''song_a.brstm''))] =
     Inr (PEntry (PInt 1) (PInt 0) (PInt 0) (PInt 0) (PInt 0) (PBool True) (PBool False)
            (PStr (str ''Song A'')) (PStr (str ''song_a.brstm'')))
   \<and> dict_to_object [(str ''songId'', PInt 1), (str ''delay'', PInt 0)] = Inl KeyError
   \<and> dict_to_object [(str ''tracks'', PList [])] = Inr (PTLST (PList []))"
  using dict_to_object_missing_field [of
      "[(str ''songId'', PInt 1), (str ''delay'', PInt 0), (str ''volume'', PInt 0),
        (str ''frequency'', PInt 0), (str ''switch'', PInt 0), (str ''disablePinch'', PBool True),
        (str ''disableTlstInclusion'', PBool False), (str ''title'', PStr (str ''Song A'')),
        (str ''filename'', PStr (str ''song_a.brstm''))]"
      "PInt 1" "PInt 0" "PInt 0" "PInt 0" "PInt 0" "PBool True" "PBool False"
      "PStr (str ''Song A'')" "PStr (str ''song_a.brstm'')"]
    dict_to_object_missing_field [of "[(str ''songId'', PInt 1), (str ''delay'', PInt 0)]"]
    dict_to_object_missing_field [of "[(str ''tracks'', PList [])]"]
  by (simp add: key_defs)

text \<open>
  The document of one entry that lacks \<open>disablePinch\<close> is not decoded with the default
  \<open>False\<close>: decoding raises \<open>KeyError\<close>.
\<close>

theorem fromJson_missing_field_raises:
  "fromJson no_pinch_doc = Inl KeyError"
  by (simp add: fromJson_def no_pinch_doc_def key_defs dict_to_object_def small_int_str_ok
      high_surrogate_def)

subsection \<open>The encoder leaves its input as it was\<close>

lemma bindS_self:
  assumes "\<And>s. st_self (snd (m s)) = st_self s"
    and "\<And>v s. st_self (snd (g v s)) = st_self s"
  shows "st_self (snd (bindS m g s)) = st_self s"
proof (cases "m s")
  case (Pair r s')
  have s': "st_self s' = st_self s" using assms(1) [of s] Pair by simp
  show ?thesis
  proof (cases r)
    case (Inl e)
    then show ?thesis using Pair s' by (simp add: bindS_def)
  next
    case (Inr v)
    then show ?thesis using Pair s' assms(2) [of v s'] by (simp add: bindS_def)
  qed
qed

lemma thenS_self:
  assumes "\<And>s. st_self (snd (m s)) = st_self s"
    and "\<And>s. st_self (snd (n s)) = st_self s"
  shows "st_self (snd (thenS m n s)) = st_self s"
  unfolding thenS_def using assms by (rule bindS_self)

lemma forS_self:
  assumes "\<And>x s. st_self (snd (body x s)) = st_self s"
  shows "st_self (snd (forS xs body s)) = st_self s"
proof (induction xs arbitrary: s)
  case Nil
  show ?case by (simp add: ret_def)
next
  case (Cons x xs)
  show ?case unfolding forS.simps by (rule thenS_self) (rule assms, rule Cons.IH)
qed

lemma f_write_self: "st_self (snd (f_write bs s)) = st_self s"
  by (simp add: f_write_def)

lemma f_seek_self: "st_self (snd (f_seek p s)) = st_self s"
  by (simp add: f_seek_def)

lemma f_tell_self: "st_self (snd (f_tell s)) = st_self s"
  by (simp add: f_tell_def)

lemma ret_self: "st_self (snd (ret v s)) = st_self s"
  by (simp add: ret_def)

lemma self_tracks_self: "st_self (snd (self_tracks s)) = st_self s"
  by (simp add: self_tracks_def)

lemma self_tracks_at_self: "st_self (snd (self_tracks_at x s)) = st_self s"
  by (simp add: self_tracks_at_def)

lemma write_packed_self: "st_self (snd (write_packed r s)) = st_self s"
  unfolding write_packed_def by (rule bindS_self) (simp_all add: liftE_def f_write_self)

lemmas self_intros = bindS_self thenS_self forS_self f_write_self f_seek_self f_tell_self
  ret_self self_tracks_self self_tracks_at_self write_packed_self

lemma write_entry_self: "st_self (snd (write_entry entry s)) = st_self s"
  unfolding write_entry_def by (intro self_intros)

lemma write_string_self: "st_self (snd (write_string txt slot stringsOffset s)) = st_self s"
proof (cases "txt = []")
  case True
  then show ?thesis unfolding write_string_def
    by (intro bindS_self f_tell_self) (simp add: ret_self)
next
  case False
  then show ?thesis unfolding write_string_def
    by (intro bindS_self f_tell_self) (simp, intro self_intros)
qed

lemma write_strings_self: "st_self (snd (write_strings stringsOffset x s)) = st_self s"
  unfolding write_strings_def by (intro self_intros write_string_self)

text \<open>
  Claim C10. Whatever the file holds when \<open>toTlst\<close> starts, and whether it returns or
  raises, the object \<open>self\<close> is afterwards what it was before: the track list and every
  field of every entry. Only the file, its content and its position, has changed.
\<close>

theorem toTlst_keeps_self:
  "st_self (snd (toTlst_prog \<lparr>st_self = self, st_file = f\<rparr>)) = self"
proof -
  have "st_self (snd (toTlst_prog s)) = st_self s" for s
    unfolding toTlst_prog_def
    by (intro self_intros write_entry_self write_strings_self)
  from this [of "\<lparr>st_self = self, st_file = f\<rparr>"] show ?thesis by simp
qed

subsection \<open>Statements that return\<close>

lemma returns_bindS:
  "returns (bindS m g) s = (case returns m s of None \<Rightarrow> None | Some (v, s') \<Rightarrow> returns (g v) s')"
  by (simp add: returns_def bindS_def split: prod.split sum.split)

lemma returns_thenS:
  "returns (thenS m n) s = (case returns m s of None \<Rightarrow> None | Some (v, s') \<Rightarrow> returns n s')"
  by (simp add: thenS_def returns_bindS)

lemma returns_ret: "returns (ret v) s = Some (v, s)"
  by (simp add: returns_def ret_def)

lemma returns_f_write:
  "returns (f_write bs) (state_of t c p) = Some ((), state_of t (write_at c p bs) (p + length bs))"
  by (simp add: returns_def f_write_def)

lemma returns_f_seek: "returns (f_seek q) (state_of t c p) = Some ((), state_of t c q)"
  by (simp add: returns_def f_seek_def)

lemma returns_f_tell: "returns f_tell (state_of t c p) = Some (p, state_of t c p)"
  by (simp add: returns_def f_tell_def)

lemma returns_self_tracks: "returns self_tracks (state_of t c p) = Some (tracks t, state_of t c p)"
  by (simp add: returns_def self_tracks_def)

lemma returns_self_tracks_at:
  "x < length (tracks t) \<Longrightarrow>
   returns (self_tracks_at x) (state_of t c p) = Some (tracks t ! x, state_of t c p)"
  by (simp add: returns_def self_tracks_at_def)

lemma returns_write_packed:
  "returns (write_packed r) (state_of t c p) =
     (case r of Inl e \<Rightarrow> None
      | Inr bs \<Rightarrow> Some ((), state_of t (write_at c p bs) (p + length bs)))"
  by (cases r) (simp_all add: write_packed_def bindS_def returns_def liftE_def f_write_def)

lemmas returns_simps = returns_bindS returns_thenS returns_ret returns_f_write returns_f_seek
  returns_f_tell returns_self_tracks returns_self_tracks_at returns_write_packed

lemma toTlst_returns:
  "toTlst t = Inr buf \<longleftrightarrow>
   (\<exists>s. returns toTlst_prog (state_of t [] 0) = Some ((), s) \<and> buf = content (st_file s))"
  by (auto simp: toTlst_def returns_def split: prod.splits sum.splits)

subsection \<open>Writing into a file\<close>

lemma write_at_end: "length c \<le> p \<Longrightarrow> write_at c p bs = c @ replicate (p - length c) 0 @ bs"
  by (simp add: write_at_def)

lemma write_at_append: "length c = p \<Longrightarrow> write_at c p bs = c @ bs"
  by (simp add: write_at_def)

lemma write_at_mid:
  "k + length bs \<le> length m \<Longrightarrow>
   write_at (l @ m @ r) (length l + k) bs = l @ (take k m @ bs @ drop (k + length bs) m) @ r"
  by (simp add: write_at_def)

lemma length_be2: "length (be2 v) = 2" by (simp add: be2_def)
lemma length_be4: "length (be4 v) = 4" by (simp add: be4_def)
lemma length_record_bytes: "length (record_bytes e fo to) = 16"
  by (simp add: record_bytes_def length_be2 length_be4)

lemma returns_write_entry:
  assumes "length c \<le> p"
  shows "returns (write_entry e) (state_of t c p) =
     (if fields_ok e
      then Some ((), state_of t (c @ replicate (p - length c) 0 @ record_bytes e 65535 65535) (p + 16))
      else None)"
proof (cases "fields_ok e")
  case True
  then show ?thesis using assms
    by (simp add: write_entry_def returns_simps pack_I_def pack_H_def pack_b_def pack_bool_def
        fields_ok_def record_bytes_def write_at_end length_be2 length_be4)
next
  case False
  then show ?thesis using assms
    by (auto simp: write_entry_def returns_simps pack_I_def pack_H_def pack_b_def pack_bool_def
        fields_ok_def split: sum.splits)
qed

lemma returns_write_entries:
  assumes "length c \<le> p"
  shows "returns (forS es write_entry) (state_of t c p) =
     (if list_all fields_ok es
      then Some ((), state_of t
             (if es = [] then c
              else c @ replicate (p - length c) 0 @ concat (map (\<lambda>e. record_bytes e 65535 65535) es))
             (p + 16 * length es))
      else None)"
  using assms
proof (induction es arbitrary: c p)
  case Nil
  show ?case by (simp add: returns_ret)
next
  case (Cons e es)
  let ?c = "c @ replicate (p - length c) 0 @ record_bytes e 65535 65535"
  have l: "length ?c \<le> p + 16" using Cons.prems by (simp add: length_record_bytes)
  have l': "p + 16 - length ?c = 0" using Cons.prems by (simp add: length_record_bytes)
  show ?case
    using Cons.prems Cons.IH [OF l]
    by (simp add: returns_thenS returns_write_entry l' length_record_bytes del: replicate.simps)
qed

lemma length_concat_chunks:
  "\<forall>c \<in> set cs. length c = 16 \<Longrightarrow> length (concat cs) = 16 * length cs"
  by (induction cs) simp_all

lemma write_at_chunk:
  assumes "\<forall>c \<in> set cs. length c = 16" "x < length cs" "k + length bs \<le> 16"
  shows "write_at (a @ concat cs @ r) (length a + 16 * x + k) bs =
         a @ concat (cs[x := take k (cs ! x) @ bs @ drop (k + length bs) (cs ! x)]) @ r"
proof -
  let ?l = "a @ concat (take x cs)"
  let ?r = "concat (drop (Suc x) cs) @ r"
  have cs: "cs = take x cs @ cs ! x # drop (Suc x) cs"
    using assms(2) by (rule id_take_nth_drop)
  have "\<forall>c \<in> set (take x cs). length c = 16" using assms(1) by (auto dest: in_set_takeD)
  then have lx: "length (concat (take x cs)) = 16 * x"
    using length_concat_chunks [of "take x cs"] assms(2) by simp
  have c16: "length (cs ! x) = 16" using assms(1,2) by simp
  have "a @ concat cs @ r = ?l @ cs ! x @ ?r"
    by (subst cs) simp
  moreover have "length a + 16 * x + k = length ?l + k" using lx by simp
  moreover have "k + length bs \<le> length (cs ! x)" using assms(3) c16 by simp
  ultimately have "write_at (a @ concat cs @ r) (length a + 16 * x + k) bs =
      ?l @ (take k (cs ! x) @ bs @ drop (k + length bs) (cs ! x)) @ ?r"
    using write_at_mid [of k bs "cs ! x" ?l ?r] by simp
  also have "\<dots> = a @ concat (cs[x := take k (cs ! x) @ bs @ drop (k + length bs) (cs ! x)]) @ r"
    using assms(2) by (simp add: upd_conv_take_nth_drop)
  finally show ?thesis .
qed

lemma utf8_Inr: "utf8_encode s = Inr bs \<Longrightarrow> utf8 s = bs"
  by (simp add: utf8_def)

lemma utf8_encode_valid: "list_all valid_cp s \<Longrightarrow> utf8_encode s = Inr (utf8 s)"
  using utf8_encode_ok [of s] by (auto simp: utf8_def)

lemma utf8_encode_invalid: "\<not> list_all valid_cp s \<Longrightarrow> \<exists>e. utf8_encode s = Inl e"
  using utf8_encode_ok [of s] by (cases "utf8_encode s") auto

lemma returns_write_string:
  assumes c: "c = a @ concat cs @ tbl"
    and cs: "\<forall>ch \<in> set cs. length ch = 16" "x < length cs"
    and k: "k + 2 \<le> 16"
    and so: "so = length a + 16 * length cs"
    and slot: "slot = length a + 16 * x + k"
    and empty: "s = [] \<Longrightarrow> take k (cs ! x) @ be2 65535 @ drop (k + 2) (cs ! x) = cs ! x"
  shows "returns (write_string s slot so) (state_of t c (length c)) =
     (if s = [] \<or> (list_all valid_cp s \<and> length tbl < 65536)
      then Some ((), state_of t
             (a @ concat (cs[x := take k (cs ! x)
                                  @ be2 (if s = [] then 65535 else int (length tbl))
                                  @ drop (k + 2) (cs ! x)])
                @ tbl @ cstring s)
             (length c + length (cstring s)))
      else None)"
proof (cases "s = []")
  case True
  then show ?thesis using empty c
    by (simp add: write_string_def returns_simps cstring_def)
next
  case False
  have len: "length c = so + length tbl"
    using c so length_concat_chunks [OF cs(1)] by simp
  show ?thesis
  proof (cases "list_all valid_cp s")
    case invalid: False
    from utf8_encode_invalid [OF this] obtain e where "utf8_encode s = Inl e" ..
    then show ?thesis using False invalid
      by (simp add: write_string_def returns_simps)
  next
    case True
    note enc = utf8_encode_valid [OF True]
    have off: "int (length c) - int so = int (length tbl)" using len by simp
    show ?thesis
    proof (cases "length tbl < 65536")
      case big: False
      then show ?thesis using False True enc off
        by (simp add: write_string_def returns_simps write_at_append pack_H_def)
    next
      case small: True
      have w: "write_at (a @ concat cs @ (tbl @ utf8 s @ [0])) (length a + 16 * x + k) (be2 (int (length tbl))) =
          a @ concat (cs[x := take k (cs ! x) @ be2 (int (length tbl)) @ drop (k + length (be2 (int (length tbl)))) (cs ! x)])
            @ (tbl @ utf8 s @ [0])"
        using cs k by (intro write_at_chunk) (simp_all add: length_be2)
      have w1: "write_at (write_at c (length c) (utf8 s)) (length c + length (utf8 s)) [0] =
          c @ utf8 s @ [0]"
        by (simp add: write_at_append)
      have w2: "write_at (c @ utf8 s @ [0]) slot (be2 (int (length tbl))) =
          a @ concat (cs[x := take k (cs ! x) @ be2 (int (length tbl)) @ drop (k + 2) (cs ! x)])
            @ tbl @ utf8 s @ [0]"
        using w by (simp add: c slot length_be2)
      show ?thesis using False True enc off small
        by (simp add: write_string_def returns_simps pack_H_def w1 w2 cstring_def)
    qed
  qed
qed

lemma patched_records_length: "length (patched_records es x) = length es"
  by (simp add: patched_records_def)

lemma patched_records_chunks: "\<forall>ch \<in> set (patched_records es x). length ch = 16"
  by (auto simp: patched_records_def length_record_bytes)

lemma patched_records_nth:
  "y < length es \<Longrightarrow> patched_records es x ! y =
     record_bytes (es ! y) (if y < x then filename_offset es y else 65535)
                           (if y < x then title_offset es y else 65535)"
  by (simp add: patched_records_def)

lemma record_bytes_set_filename:
  "take 8 (record_bytes e fo to) @ be2 fo' @ drop (8 + 2) (record_bytes e fo to) = record_bytes e fo' to"
  by (simp add: record_bytes_def be2_def be4_def)

lemma record_bytes_set_title:
  "take 10 (record_bytes e fo to) @ be2 to' @ drop (10 + 2) (record_bytes e fo to) = record_bytes e fo to'"
  by (simp add: record_bytes_def be2_def be4_def)

lemma string_table_take_Suc:
  "x < length es \<Longrightarrow>
   string_table (take (Suc x) es) = string_table (take x es) @ cstring (filename (es ! x)) @ cstring (title (es ! x))"
  by (simp add: string_table_def take_Suc_conv_app_nth entry_strings_def)

lemma patched_records_step:
  assumes "x < length es"
  shows "(patched_records es x)[x := record_bytes (es ! x) (filename_offset es x) (title_offset es x)] =
         patched_records es (Suc x)"
proof (rule nth_equalityI)
  show "length ((patched_records es x)[x := record_bytes (es ! x) (filename_offset es x) (title_offset es x)]) =
        length (patched_records es (Suc x))"
    by (simp add: patched_records_length)
next
  fix y
  assume "y < length ((patched_records es x)[x := record_bytes (es ! x) (filename_offset es x) (title_offset es x)])"
  then have y: "y < length es" by (simp add: patched_records_length)
  show "(patched_records es x)[x := record_bytes (es ! x) (filename_offset es x) (title_offset es x)] ! y =
        patched_records es (Suc x) ! y"
  proof (cases "y = x")
    case True
    then show ?thesis using assms by (simp add: patched_records_nth patched_records_length)
  next
    case False
    then have "(y < Suc x) = (y < x)" by auto
    then show ?thesis using False y by (simp add: patched_records_nth)
  qed
qed

lemma returns_write_strings:
  assumes x: "x < length (tracks t)" and hdr: "length hdr = 12"
  shows "returns (write_strings (12 + 16 * length (tracks t)) x)
           (state_of t (loop_content hdr (tracks t) x) (length (loop_content hdr (tracks t) x))) =
     (if entry_fits (tracks t) x
      then Some ((), state_of t (loop_content hdr (tracks t) (Suc x))
                        (length (loop_content hdr (tracks t) (Suc x))))
      else None)"
proof -
  let ?es = "tracks t"
  let ?e = "?es ! x"
  let ?cs = "patched_records ?es x"
  let ?tbl = "string_table (take x ?es)"
  let ?fo = "filename_offset ?es x"
  let ?to = "title_offset ?es x"
  let ?cs1 = "?cs[x := record_bytes ?e ?fo 65535]"
  let ?tbl1 = "?tbl @ cstring (filename ?e)"
  let ?c1 = "hdr @ concat ?cs1 @ ?tbl1"
  have csx: "?cs ! x = record_bytes ?e 65535 65535" using x by (simp add: patched_records_nth)
  have xl: "x < length ?cs" using x by (simp add: patched_records_length)
  have so: "12 + 16 * length ?es = length hdr + 16 * length ?cs"
    by (simp add: hdr patched_records_length)
  have cs1x: "?cs1 ! x = record_bytes ?e ?fo 65535" using xl by simp
  have cs1_chunks: "\<forall>ch \<in> set ?cs1. length ch = 16"
    using patched_records_chunks [of ?es x] by (auto simp: length_record_bytes dest!: set_update_subset_insert [THEN subsetD])
  have len_cs: "length (concat ?cs) = 16 * length ?es"
    using length_concat_chunks [OF patched_records_chunks, of ?es x] by (simp add: patched_records_length)
  have len_cs1: "length (concat ?cs1) = 16 * length ?es"
    using length_concat_chunks [OF cs1_chunks] by (simp add: patched_records_length)
  have r1: "returns (write_string (filename ?e) (x * 16 + 12 + 8) (12 + 16 * length ?es))
             (state_of t (loop_content hdr ?es x) (length (loop_content hdr ?es x))) =
     (if filename ?e = [] \<or> (list_all valid_cp (filename ?e) \<and> length ?tbl < 65536)
      then Some ((), state_of t ?c1 (length ?c1)) else None)"
  proof -
    have a: "take 8 (?cs ! x) @ be2 (if filename ?e = [] then 65535 else int (length ?tbl)) @ drop (8 + 2) (?cs ! x)
          = record_bytes ?e ?fo 65535"
      unfolding csx record_bytes_set_filename by (simp add: filename_offset_def)
    have "returns (write_string (filename ?e) (x * 16 + 12 + 8) (12 + 16 * length ?es))
             (state_of t (loop_content hdr ?es x) (length (loop_content hdr ?es x))) =
     (if filename ?e = [] \<or> (list_all valid_cp (filename ?e) \<and> length ?tbl < 65536)
      then Some ((), state_of t
             (hdr @ concat (?cs[x := take 8 (?cs ! x)
                                  @ be2 (if filename ?e = [] then 65535 else int (length ?tbl))
                                  @ drop (8 + 2) (?cs ! x)])
                @ ?tbl @ cstring (filename ?e))
             (length (loop_content hdr ?es x) + length (cstring (filename ?e))))
      else None)"
    proof (rule returns_write_string [where a = hdr and cs = ?cs and tbl = ?tbl and x = x and k = 8])
      show "loop_content hdr ?es x = hdr @ concat ?cs @ ?tbl" by (simp add: loop_content_def)
      show "\<forall>ch \<in> set ?cs. length ch = 16" by (rule patched_records_chunks)
      show "x < length ?cs" by (rule xl)
      show "8 + 2 \<le> (16::nat)" by simp
      show "12 + 16 * length ?es = length hdr + 16 * length ?cs" by (rule so)
      show "x * 16 + 12 + 8 = length hdr + 16 * x + 8" by (simp add: hdr)
      show "take 8 (?cs ! x) @ be2 65535 @ drop (8 + 2) (?cs ! x) = ?cs ! x"
        unfolding csx by (rule record_bytes_set_filename)
    qed
    also have "\<dots> = (if filename ?e = [] \<or> (list_all valid_cp (filename ?e) \<and> length ?tbl < 65536)
      then Some ((), state_of t ?c1 (length ?c1)) else None)"
      unfolding a by (simp add: loop_content_def len_cs len_cs1)
    finally show ?thesis .
  qed
  have r2: "returns (write_string (title ?e) (x * 16 + 12 + 10) (12 + 16 * length ?es))
             (state_of t ?c1 (length ?c1)) =
     (if title ?e = [] \<or> (list_all valid_cp (title ?e) \<and> length ?tbl1 < 65536)
      then Some ((), state_of t (loop_content hdr ?es (Suc x)) (length (loop_content hdr ?es (Suc x))))
      else None)"
  proof -
    have a: "take 10 (?cs1 ! x) @ be2 (if title ?e = [] then 65535 else int (length ?tbl1)) @ drop (10 + 2) (?cs1 ! x)
          = record_bytes ?e ?fo ?to"
      unfolding cs1x record_bytes_set_title by (simp add: title_offset_def)
    have "returns (write_string (title ?e) (x * 16 + 12 + 10) (12 + 16 * length ?es))
             (state_of t ?c1 (length ?c1)) =
     (if title ?e = [] \<or> (list_all valid_cp (title ?e) \<and> length ?tbl1 < 65536)
      then Some ((), state_of t
             (hdr @ concat (?cs1[x := take 10 (?cs1 ! x)
                                  @ be2 (if title ?e = [] then 65535 else int (length ?tbl1))
                                  @ drop (10 + 2) (?cs1 ! x)])
                @ ?tbl1 @ cstring (title ?e))
             (length ?c1 + length (cstring (title ?e))))
      else None)"
    proof (rule returns_write_string [where a = hdr and cs = ?cs1 and tbl = ?tbl1 and x = x and k = 10])
      show "?c1 = hdr @ concat ?cs1 @ ?tbl1" by simp
      show "\<forall>ch \<in> set ?cs1. length ch = 16" by (rule cs1_chunks)
      show "x < length ?cs1" using xl by simp
      show "10 + 2 \<le> (16::nat)" by simp
      show "12 + 16 * length ?es = length hdr + 16 * length ?cs1" using so by simp
      show "x * 16 + 12 + 10 = length hdr + 16 * x + 10" by (simp add: hdr)
      show "take 10 (?cs1 ! x) @ be2 65535 @ drop (10 + 2) (?cs1 ! x) = ?cs1 ! x"
        unfolding cs1x by (rule record_bytes_set_title)
    qed
    also have "\<dots> = (if title ?e = [] \<or> (list_all valid_cp (title ?e) \<and> length ?tbl1 < 65536)
      then Some ((), state_of t (loop_content hdr ?es (Suc x)) (length (loop_content hdr ?es (Suc x))))
      else None)"
      unfolding a using patched_records_step [OF x] x
      by (simp add: loop_content_def string_table_take_Suc patched_records_length
          length_concat_chunks [OF patched_records_chunks] len_cs1)
    finally show ?thesis .
  qed
  show ?thesis
    using x r1 r2
    by (simp add: write_strings_def returns_simps entry_fits_def del: length_append)
qed

lemma returns_write_strings_loop:
  assumes hdr: "length hdr = 12"
  shows "x \<le> length (tracks t) \<Longrightarrow>
    returns (forS [x..<length (tracks t)] (write_strings (12 + 16 * length (tracks t))))
           (state_of t (loop_content hdr (tracks t) x) (length (loop_content hdr (tracks t) x))) =
     (if list_all (entry_fits (tracks t)) [x..<length (tracks t)]
      then Some ((), state_of t (loop_content hdr (tracks t) (length (tracks t)))
                        (length (loop_content hdr (tracks t) (length (tracks t)))))
      else None)"
proof (induction "length (tracks t) - x" arbitrary: x)
  case 0
  then show ?case by (simp add: returns_ret)
next
  case (Suc d)
  then have x: "x < length (tracks t)" and d: "d = length (tracks t) - Suc x"
    and le: "Suc x \<le> length (tracks t)" by simp_all
  have upt: "[x..<length (tracks t)] = x # [Suc x..<length (tracks t)]"
    using x by (rule upt_conv_Cons)
  show ?case
    unfolding upt forS.simps
    using Suc.hyps(1) [OF d le] returns_write_strings [OF x hdr]
    by (simp add: returns_thenS del: length_append)
qed

lemma string_table_take_le: "length (string_table (take x es)) \<le> length (string_table es)"
proof -
  have "string_table es = string_table (take x es) @ string_table (drop x es)"
    unfolding string_table_def by (simp flip: concat_append map_append)
  then show ?thesis by simp
qed

lemma entry_fits_iff:
  assumes "file_size es < 65536" "x < length es"
  shows "entry_fits es x = strings_ok (es ! x)"
proof -
  have a: "length (string_table (take x es)) \<le> length (string_table es)"
    by (rule string_table_take_le)
  have "length (string_table (take (Suc x) es)) \<le> length (string_table es)"
    by (rule string_table_take_le)
  then have b: "length (string_table (take x es) @ cstring (filename (es ! x))) \<le> length (string_table es)"
    using assms(2) by (simp add: string_table_take_Suc)
  have c: "length (string_table es) < 65536" using assms(1) by (simp add: file_size_def)
  have v: "list_all valid_cp ([]::pystr)" by simp
  show ?thesis
    unfolding entry_fits_def strings_ok_def using a b c
    by (cases "filename (es ! x) = []"; cases "title (es ! x) = []") (simp_all del: length_append)
qed

lemma list_all_entry_fits:
  assumes "file_size es < 65536"
  shows "list_all (entry_fits es) [0..<length es] = list_all strings_ok es"
proof -
  have "list_all (entry_fits es) [0..<length es] = (\<forall>x<length es. entry_fits es x)"
    by (auto simp: list_all_iff)
  also have "\<dots> = (\<forall>x<length es. strings_ok (es ! x))"
    using entry_fits_iff [OF assms] by auto
  also have "\<dots> = list_all strings_ok es"
    by (simp add: list_all_length)
  finally show ?thesis .
qed

lemma patched_records_0:
  "concat (patched_records es 0) = concat (map (\<lambda>e. record_bytes e 65535 65535) es)"
proof -
  have "patched_records es 0 = map (\<lambda>e. record_bytes e 65535 65535) es"
    by (rule nth_equalityI) (simp_all add: patched_records_def)
  then show ?thesis by simp
qed

lemma length_loop_content:
  "length hdr = 12 \<Longrightarrow>
   length (loop_content hdr es x) = 12 + 16 * length es + length (string_table (take x es))"
  using length_concat_chunks [OF patched_records_chunks, of es x]
  by (simp add: loop_content_def patched_records_length)

lemma layout_loop_content:
  "layout es = magic @ be4 (int (length es)) @ be2 (int (file_size es))
     @ be2 (int (12 + 16 * length es)) @ concat (patched_records es (length es)) @ string_table es"
proof -
  have "map (\<lambda>x. record_bytes (es ! x) (filename_offset es x) (title_offset es x)) [0..<length es] =
        patched_records es (length es)"
    by (rule nth_equalityI) (simp_all add: patched_records_def)
  then show ?thesis by (simp add: layout_def)
qed

lemma returns_toTlst_prog:
  "returns toTlst_prog (state_of t [] 0) =
     (if enc_ok (tracks t) then Some ((), state_of t (layout (tracks t)) 12) else None)"
proof (cases "tracks t = []")
  case True
  then show ?thesis
    by (simp add: toTlst_prog_def returns_simps write_at_append magic_def pack_I_def pack_H_def
        be4_def be2_def enc_ok_def file_size_def layout_def string_table_def write_at_def)
next
  case False
  let ?es = "tracks t"
  let ?n = "length ?es"
  let ?hdr = "magic @ be4 (int ?n) @ [0, 0, 0, 0]"
  have hdr: "length ?hdr = 12" by (simp add: magic_def length_be4)
  have s1: "returns (forS ?es write_entry) (state_of t (magic @ be4 (int ?n)) 12) =
      (if list_all fields_ok ?es
       then Some ((), state_of t (loop_content ?hdr ?es 0) (12 + 16 * ?n)) else None)"
    using False returns_write_entries [of "magic @ be4 (int ?n)" 12 ?es t]
    by (simp add: magic_def length_be4 loop_content_def patched_records_0 string_table_def
        numeral_eq_Suc)
  have s2: "returns (forS [0..<?n] (write_strings (12 + 16 * ?n)))
             (state_of t (loop_content ?hdr ?es 0) (12 + 16 * ?n)) =
      (if list_all (entry_fits ?es) [0..<?n]
       then Some ((), state_of t (loop_content ?hdr ?es ?n) (file_size ?es)) else None)"
    using returns_write_strings_loop [OF hdr, of 0 t]
    by (simp add: length_loop_content [OF hdr] file_size_def string_table_def)
  have s3: "returns (thenS (f_seek 8) (thenS (write_packed (pack_H (int (file_size ?es))))
                (write_packed (pack_H (int (12 + 16 * ?n))))))
             (state_of t (loop_content ?hdr ?es ?n) (file_size ?es)) =
      (if file_size ?es < 65536 then Some ((), state_of t (layout ?es) 12) else None)"
  proof (cases "file_size ?es < 65536")
    case True
    then have so: "12 + 16 * ?n < 65536" by (simp add: file_size_def)
    have "write_at (write_at (loop_content ?hdr ?es ?n) 8 (be2 (int (file_size ?es)))) 10
            (be2 (int (12 + 16 * ?n))) = layout ?es"
      by (simp add: layout_loop_content loop_content_def write_at_def magic_def be4_def be2_def)
    then show ?thesis using True so
      by (simp add: returns_simps pack_H_def length_be2)
  next
    case False
    then show ?thesis by (simp add: returns_simps pack_H_def)
  qed
  have n32: "int ?n < 4294967296" if "file_size ?es < 65536"
    using that by (simp add: file_size_def)
  show ?thesis
  proof (cases "file_size ?es < 65536")
    case True
    show ?thesis
      using True n32 [OF True] s1 s2 s3 list_all_entry_fits [OF True]
      by (simp add: toTlst_prog_def returns_simps write_at_append magic_def pack_I_def
          length_be4 enc_ok_def)
  next
    case big: False
    have "returns toTlst_prog (state_of t [] 0) = None"
      using big s1 s2 s3
      by (simp add: toTlst_prog_def returns_simps write_at_append magic_def pack_I_def
          length_be4 split: option.split)
    then show ?thesis using big by (simp add: enc_ok_def)
  qed
qed

lemma toTlst_eq: "toTlst t = Inr buf \<longleftrightarrow> enc_ok (tracks t) \<and> buf = layout (tracks t)"
  unfolding toTlst_returns returns_toTlst_prog by auto

subsection \<open>Packing and unpacking\<close>

lemma be_int_be2: "0 \<le> v \<Longrightarrow> v < 65536 \<Longrightarrow> be_int (be2 v) = v"
proof -
  assume v: "0 \<le> v" "v < 65536"
  have "0 \<le> v div 256" "v div 256 < 256" using v by simp_all
  then have h: "v div 256 mod 256 = v div 256" by simp
  have "be_int (be2 v) = (v div 256 mod 256) * 256 + v mod 256"
    by (simp add: be_int_def be2_def uint_word_of_int)
  then show ?thesis unfolding h by simp
qed

lemma be_int_be4: "0 \<le> v \<Longrightarrow> v < 4294967296 \<Longrightarrow> be_int (be4 v) = v"
proof -
  assume v: "0 \<le> v" "v < 4294967296"
  define a where "a = v div 256"
  define b where "b = a div 256"
  define c where "c = b div 256"
  have d: "v div 65536 = b" "v div 16777216 = c"
    unfolding a_def b_def c_def using v(1) by (simp_all add: zdiv_zmult2_eq)
  have "0 \<le> v div 16777216" "v div 16777216 < 256" using v by simp_all
  then have c256: "c mod 256 = c"
    unfolding d(2) by simp
  have "be_int (be4 v) = ((c mod 256 * 256 + b mod 256) * 256 + a mod 256) * 256 + v mod 256"
    by (simp add: be_int_def be4_def uint_word_of_int d a_def)
  also have "\<dots> = ((c * 256 + b mod 256) * 256 + a mod 256) * 256 + v mod 256"
    unfolding c256 ..
  also have "\<dots> = (b * 256 + a mod 256) * 256 + v mod 256"
    unfolding c_def by simp
  also have "\<dots> = a * 256 + v mod 256"
    unfolding b_def by simp
  also have "\<dots> = v" unfolding a_def by simp
  finally show ?thesis .
qed

lemma sint_byte: "- 128 \<le> v \<Longrightarrow> v < 128 \<Longrightarrow> sint (word_of_int v :: byte) = v"
proof -
  assume v: "- 128 \<le> v" "v < 128"
  then have "0 \<le> v + 128" "v + 128 < 256" by simp_all
  then have "(v + 128) mod 256 = v + 128" by simp
  then show ?thesis by (simp add: int_word_sint)
qed

subsection \<open>The parts of the file\<close>

lemma length_layout: "length (layout es) = file_size es"
  using length_concat_chunks [OF patched_records_chunks, of es "length es"]
  by (simp add: layout_loop_content magic_def length_be4 length_be2 file_size_def
      patched_records_length)

lemma layout_record:
  assumes "x < length es"
  shows "\<exists>a r. layout es = a @ record_bytes (es ! x) (filename_offset es x) (title_offset es x) @ r
           \<and> length a = x * 16 + 12"
proof -
  let ?cs = "patched_records es (length es)"
  let ?h = "magic @ be4 (int (length es)) @ be2 (int (file_size es)) @ be2 (int (12 + 16 * length es))"
  have x: "x < length ?cs" using assms by (simp add: patched_records_length)
  have cs: "?cs = take x ?cs @ ?cs ! x # drop (Suc x) ?cs"
    using x by (rule id_take_nth_drop)
  have "\<forall>c \<in> set (take x ?cs). length c = 16"
    using patched_records_chunks [of es "length es"] by (auto dest: in_set_takeD)
  then have lx: "length (concat (take x ?cs)) = 16 * x"
    using length_concat_chunks [of "take x ?cs"] x by simp
  have nth: "?cs ! x = record_bytes (es ! x) (filename_offset es x) (title_offset es x)"
    using assms by (simp add: patched_records_nth)
  have "layout es = (?h @ concat (take x ?cs)) @ ?cs ! x @ (concat (drop (Suc x) ?cs) @ string_table es)"
    unfolding layout_loop_content by (subst cs) simp
  moreover have "length (?h @ concat (take x ?cs)) = x * 16 + 12"
    using lx by (simp add: magic_def length_be4 length_be2)
  ultimately show ?thesis unfolding nth by blast
qed

lemma layout_strings:
  assumes "x \<le> length es"
  shows "drop (12 + 16 * length es + length (string_table (take x es))) (layout es) =
         string_table (drop x es)"
proof -
  let ?cs = "patched_records es (length es)"
  let ?h = "magic @ be4 (int (length es)) @ be2 (int (file_size es)) @ be2 (int (12 + 16 * length es))"
  have l: "length (?h @ concat ?cs) = 12 + 16 * length es"
    using length_concat_chunks [OF patched_records_chunks, of es "length es"]
    by (simp add: magic_def length_be4 length_be2 patched_records_length)
  have t: "string_table es = string_table (take x es) @ string_table (drop x es)"
    unfolding string_table_def by (simp flip: concat_append map_append)
  have "layout es = ((?h @ concat ?cs) @ string_table (take x es)) @ string_table (drop x es)"
    unfolding layout_loop_content by (subst t) simp
  moreover have "length ((?h @ concat ?cs) @ string_table (take x es)) =
      12 + 16 * length es + length (string_table (take x es))"
    using l by simp
  ultimately show ?thesis by (metis append_eq_conv_conj)
qed

lemma layout_header:
  "\<exists>r. layout es = magic @ be4 (int (length es)) @ be2 (int (file_size es))
          @ be2 (int (12 + 16 * length es)) @ r"
  unfolding layout_def by blast

subsection \<open>Reading what was written\<close>

lemma read_record_written:
  assumes a: "length a = p" and e: "fields_ok e"
  shows "read_record (a @ record_bytes e fo to @ r) p =
     Inr (e\<lparr>title := [], filename := []\<rparr>, be_int (be2 fo), be_int (be2 to), p + 16)"
proof -
  let ?buf = "a @ record_bytes e fo to @ r"
  have len: "p + 16 \<le> length ?buf" using a by (simp add: length_record_bytes)
  have d: "drop (p + k) ?buf = drop k (record_bytes e fo to @ r)" for k
    using a by simp
  have n: "?buf ! (p + k) = (record_bytes e fo to @ r) ! k" for k
    using a by (simp add: nth_append)
  have f1: "take 4 (drop p ?buf) = be4 (songId e)"
    using d [of 0] by (simp add: record_bytes_def length_be4)
  have f2: "take 2 (drop (p + 4) ?buf) = be2 (delay e)"
    unfolding d by (simp add: record_bytes_def length_be4 length_be2)
  have f3: "?buf ! (p + 6) = word_of_int (volume e)"
    unfolding n by (simp add: record_bytes_def be4_def be2_def)
  have f4: "?buf ! (p + 7) = word_of_int (frequency e)"
    unfolding n by (simp add: record_bytes_def be4_def be2_def)
  have f5: "take 2 (drop (p + 8) ?buf) = be2 fo"
    unfolding d by (simp add: record_bytes_def be4_def be2_def)
  have f6: "take 2 (drop (p + 10) ?buf) = be2 to"
    unfolding d by (simp add: record_bytes_def be4_def be2_def)
  have f7: "take 2 (drop (p + 12) ?buf) = be2 (switch e)"
    unfolding d by (simp add: record_bytes_def be4_def be2_def)
  have f8: "?buf ! (p + 14) = (if disablePinch e then 1 else 0)"
    unfolding n by (simp add: record_bytes_def be4_def be2_def)
  have f9: "?buf ! (p + 15) = (if disableTlstInclusion e then 1 else 0)"
    unfolding n by (simp add: record_bytes_def be4_def be2_def)
  show ?thesis
    unfolding read_record_full [OF len] f1 f2 f3 f4 f5 f6 f7 f8 f9
    using e by (simp add: fields_ok_def be_int_be4 be_int_be2 sint_byte)
qed

subsection \<open>The exceptions of the encoder\<close>

lemma raises_only_bindS:
  assumes "raises_only t m" and "\<And>v. raises_only t (g v)"
  shows "raises_only t (bindS m g)"
  unfolding raises_only_def
proof (intro allI impI)
  fix s :: enc_state
  assume s: "st_self s = t"
  obtain r s' where m: "m s = (r, s')" by (cases "m s")
  from assms(1) s m have s': "st_self s' = t"
    and r: "\<And>e. r = Inl e \<Longrightarrow> e = StructError \<or> e = UnicodeEncodeError"
    by (auto simp: raises_only_def)
  show "st_self (snd (bindS m g s)) = t \<and>
        (\<forall>e. fst (bindS m g s) = Inl e \<longrightarrow> e = StructError \<or> e = UnicodeEncodeError)"
  proof (cases r)
    case (Inl e)
    then show ?thesis using m s' r by (simp add: bindS_def)
  next
    case (Inr v)
    then show ?thesis using m s' assms(2) [of v] by (simp add: bindS_def raises_only_def)
  qed
qed

lemma raises_only_thenS:
  "raises_only t m \<Longrightarrow> raises_only t n \<Longrightarrow> raises_only t (thenS m n)"
  unfolding thenS_def by (rule raises_only_bindS)

lemma raises_only_ret: "raises_only t (ret v)"
  by (simp add: raises_only_def ret_def)

lemma raises_only_forS:
  "(\<And>x. x \<in> set xs \<Longrightarrow> raises_only t (body x)) \<Longrightarrow> raises_only t (forS xs body)"
  by (induction xs) (simp_all add: raises_only_ret raises_only_thenS)

lemma raises_only_f_write: "raises_only t (f_write bs)"
  by (simp add: raises_only_def f_write_def)

lemma raises_only_f_seek: "raises_only t (f_seek p)"
  by (simp add: raises_only_def f_seek_def)

lemma raises_only_f_tell: "(\<And>v. raises_only t (g v)) \<Longrightarrow> raises_only t (bindS f_tell g)"
  by (rule raises_only_bindS) (simp_all add: raises_only_def f_tell_def)

lemma raises_only_self_tracks:
  "raises_only t (g (tracks t)) \<Longrightarrow> raises_only t (bindS self_tracks g)"
  by (simp add: raises_only_def bindS_def self_tracks_def)

lemma raises_only_self_tracks_at:
  "x < length (tracks t) \<Longrightarrow> (\<And>v. raises_only t (g v)) \<Longrightarrow>
   raises_only t (bindS (self_tracks_at x) g)"
  by (rule raises_only_bindS) (simp_all add: raises_only_def self_tracks_at_def)

lemma raises_only_write_packed:
  "(\<And>e. r = Inl e \<Longrightarrow> e = StructError \<or> e = UnicodeEncodeError) \<Longrightarrow>
   raises_only t (write_packed r)"
  by (cases r) (simp_all add: raises_only_def write_packed_def bindS_def liftE_def f_write_def)

lemma pack_raises:
  "pack_I v = Inl e \<Longrightarrow> e = StructError \<or> e = UnicodeEncodeError"
  "pack_H v = Inl e \<Longrightarrow> e = StructError \<or> e = UnicodeEncodeError"
  "pack_b v = Inl e \<Longrightarrow> e = StructError \<or> e = UnicodeEncodeError"
  "pack_bool b = Inl e \<Longrightarrow> e = StructError \<or> e = UnicodeEncodeError"
  by (simp_all add: pack_I_def pack_H_def pack_b_def pack_bool_def split: if_splits)

lemma utf8_encode_raises:
  "utf8_encode s = Inl e \<Longrightarrow> e = StructError \<or> e = UnicodeEncodeError"
proof (induction s)
  case Nil
  then show ?case by simp
next
  case (Cons c s)
  then show ?case
    by (auto simp: bindE_def utf8_encode_cp_def split: sum.splits if_splits)
qed

lemmas raises_only_intros = raises_only_thenS raises_only_ret raises_only_f_write
  raises_only_f_seek raises_only_f_tell raises_only_self_tracks
  raises_only_write_packed

lemma raises_only_write_entry: "raises_only t (write_entry e)"
  unfolding write_entry_def by (intro raises_only_intros) (erule pack_raises)+

lemma raises_only_write_string: "raises_only t (write_string s slot so)"
  unfolding write_string_def
proof (rule raises_only_f_tell)
  fix off
  show "raises_only t (if s \<noteq> [] then
         thenS (write_packed (utf8_encode s))
        (thenS (f_write [0])
        (bindS f_tell (\<lambda>prevOff.
         thenS (f_seek slot)
        (thenS (write_packed (pack_H (int off - int so)))
               (f_seek prevOff)))))
       else ret ())"
  proof (cases "s = []")
    case True
    then show ?thesis by (simp add: raises_only_ret)
  next
    case False
    have "raises_only t (thenS (write_packed (utf8_encode s))
        (thenS (f_write [0])
        (bindS f_tell (\<lambda>prevOff.
         thenS (f_seek slot)
        (thenS (write_packed (pack_H (int off - int so)))
               (f_seek prevOff))))))"
      by (intro raises_only_intros) (erule utf8_encode_raises pack_raises)+
    then show ?thesis using False by simp
  qed
qed

lemma raises_only_write_strings:
  "x < length (tracks t) \<Longrightarrow> raises_only t (write_strings so x)"
  unfolding write_strings_def
  by (rule raises_only_self_tracks_at) (simp_all add: raises_only_thenS raises_only_write_string)

lemma raises_only_toTlst_prog: "raises_only t toTlst_prog"
  unfolding toTlst_prog_def
  apply (intro raises_only_thenS raises_only_f_write raises_only_self_tracks raises_only_f_seek
      raises_only_f_tell raises_only_forS raises_only_write_entry raises_only_write_packed)
       apply (erule pack_raises)
      apply (simp add: raises_only_write_strings)
     apply (erule pack_raises)+
  done

lemma toTlst_raises: "toTlst t = Inl e \<Longrightarrow> e = StructError \<or> e = UnicodeEncodeError"
proof -
  assume a: "toTlst t = Inl e"
  obtain r s where p: "toTlst_prog (state_of t [] 0) = (r, s)"
    by (cases "toTlst_prog (state_of t [] 0)")
  from a p have "r = Inl e" by (cases r) (simp_all add: toTlst_def)
  with raises_only_toTlst_prog [of t] p show ?thesis
    by (simp add: raises_only_def) (metis enc_state.select_convs(1) fst_conv)
qed

subsection \<open>The stored offsets\<close>

lemma string_table_bound:
  assumes "enc_ok es" "x < length es"
  shows "12 + 16 * length es + (length (string_table (take x es))
           + length (cstring (filename (es ! x))) + length (cstring (title (es ! x)))) < 65536"
proof -
  have "length (string_table (take (Suc x) es)) \<le> length (string_table es)"
    by (rule string_table_take_le)
  then have "length (string_table (take x es)) + length (cstring (filename (es ! x)))
      + length (cstring (title (es ! x))) \<le> length (string_table es)"
    by (simp add: string_table_take_Suc [OF assms(2)])
  moreover have "12 + 16 * length es + length (string_table es) < 65536"
    using assms(1) by (simp add: enc_ok_def file_size_def)
  ultimately show ?thesis by linarith
qed

lemma layout_slots:
  assumes ok: "enc_ok es" and x: "x < length es"
  shows "filename_slot (layout es) x = filename_offset es x"
    and "title_slot (layout es) x = title_offset es x"
proof -
  from layout_record [OF x] obtain a r where
    l: "layout es = a @ record_bytes (es ! x) (filename_offset es x) (title_offset es x) @ r"
    and a: "length a = x * 16 + 12" by blast
  note b = string_table_bound [OF ok x]
  have fo: "0 \<le> filename_offset es x" "filename_offset es x < 65536"
    using b by (simp_all add: filename_offset_def)
  have to: "0 \<le> title_offset es x" "title_offset es x < 65536"
    using b by (simp_all add: title_offset_def)
  have d: "drop (x * 16 + 12 + k) (layout es) =
      drop k (record_bytes (es ! x) (filename_offset es x) (title_offset es x) @ r)" for k
    unfolding l using a by simp
  show "filename_slot (layout es) x = filename_offset es x"
    unfolding filename_slot_def d using be_int_be2 [OF fo]
    by (simp add: record_bytes_def be4_def length_be2)
  show "title_slot (layout es) x = title_offset es x"
    unfolding title_slot_def d using be_int_be2 [OF to]
    by (simp add: record_bytes_def be4_def length_be2)
qed

text \<open>
  Claim C5. \<open>toTlst\<close> either raises, and then \<open>struct.error\<close> or \<open>UnicodeEncodeError\<close>
  (the program has no exception class of its own), or returns; when it returns, the
  number of entries fits 32 bits and, for every entry, the offset stored for a non-empty
  filename or title is the place of that string in the string table and is at most 0xFFFE.
  So a non-empty string never has the offset 0xFFFF that marks an absent one, and a track
  list whose count or offsets do not fit makes \<open>toTlst\<close> raise.
\<close>

theorem toTlst_raises_or_offsets_fit:
  "(toTlst t = Inl StructError \<or> toTlst t = Inl UnicodeEncodeError)
   \<or> (\<exists>buf. toTlst t = Inr buf \<and> int (length (tracks t)) \<le> 4294967295
         \<and> (\<forall>x<length (tracks t).
              (filename (tracks t ! x) \<noteq> [] \<longrightarrow>
                 filename_slot buf x = int (length (string_table (take x (tracks t))))
                 \<and> filename_slot buf x \<le> 65534)
            \<and> (title (tracks t ! x) \<noteq> [] \<longrightarrow>
                 title_slot buf x = int (length (string_table (take x (tracks t))
                                                   @ cstring (filename (tracks t ! x))))
                 \<and> title_slot buf x \<le> 65534)))"
proof (cases "toTlst t")
  case (Inl e)
  then show ?thesis using toTlst_raises [OF Inl] by auto
next
  case (Inr buf)
  then have ok: "enc_ok (tracks t)" and buf: "buf = layout (tracks t)"
    by (simp_all add: toTlst_eq)
  have n: "int (length (tracks t)) \<le> 4294967295"
    using ok by (simp add: enc_ok_def file_size_def)
  have "(filename (tracks t ! x) \<noteq> [] \<longrightarrow>
                 filename_slot buf x = int (length (string_table (take x (tracks t))))
                 \<and> filename_slot buf x \<le> 65534)
            \<and> (title (tracks t ! x) \<noteq> [] \<longrightarrow>
                 title_slot buf x = int (length (string_table (take x (tracks t))
                                                   @ cstring (filename (tracks t ! x))))
                 \<and> title_slot buf x \<le> 65534)" if x: "x < length (tracks t)" for x
    using layout_slots [OF ok x] string_table_bound [OF ok x]
    by (simp add: buf filename_offset_def title_offset_def)
  then show ?thesis using Inr n by blast
qed

theorem toTlst_raises_or_offsets_fit_witness:
  "toTlst \<lparr>tracks = [song_a]\<rparr> = Inr song_a_bytes
   \<and> filename_slot song_a_bytes 0 = 0 \<and> title_slot song_a_bytes 0 = 13"
  using toTlst_raises_or_offsets_fit [of "\<lparr>tracks = [song_a]\<rparr>"] toTlst_song_a
  by (simp add: song_a_def string_table_def cstring_def utf8_def utf8_encode_cp_def bindE_def)

end
